theory Spec2Isabelle
  imports Main "HOL-Library.AList" "HOL-Library.Multiset"
begin

section \<open>Events and per-author counters\<close>

text \<open>
  Instants are the numbers that \<^verbatim>\<open>datetime.strptime(s, '%Y-%m-%dT%H:%M:%SZ').timestamp()\<close>
  and \<^verbatim>\<open>(today - timedelta(days=365)).timestamp()\<close> compute. The program only compares
  them with \<^verbatim>\<open>>=\<close>, so they are modelled as integers.
\<close>

type_synonym timestamp = int

text \<open>
  The walkers append Python dicts \<^verbatim>\<open>{'author': ..., 'reviewDate': ...}\<close> and
  \<^verbatim>\<open>{'author': ..., 'authoredDate': ...}\<close> to their result lists.
\<close>

record review_event =
  review_event_author :: string
  reviewDate :: timestamp

record commit_event =
  commit_event_author :: string
  commit_event_authoredDate :: timestamp

text \<open>Class \<^verbatim>\<open>AuthorCounts\<close>: four Python integers, all zero after \<^verbatim>\<open>__init__\<close>.\<close>

record AuthorCounts =
  total_commits :: int
  commits_in_last_year :: int
  total_reviews :: int
  reviews_in_last_year :: int

definition AuthorCounts_init :: AuthorCounts where
  "AuthorCounts_init =
     \<lparr>total_commits = 0, commits_in_last_year = 0, total_reviews = 0, reviews_in_last_year = 0\<rparr>"

text \<open>
  The dict \<^verbatim>\<open>authors\<close> of \<^verbatim>\<open>main\<close>. A Python dict iterates in insertion order and
  the reporter depends on that order, so it is an association list with distinct keys:
  \<^verbatim>\<open>authors[k] = v\<close> is \<^const>\<open>AList.update\<close> (a new key goes to the end, an old key keeps
  its place), \<^verbatim>\<open>authors[k].field += 1\<close> is \<^const>\<open>AList.map_entry\<close>, and
  \<^verbatim>\<open>k in authors\<close> is \<open>map_of authors k \<noteq> None\<close>.
\<close>

type_synonym authors = "(string \<times> AuthorCounts) list"

section \<open>The aggregator (the two loops of main)\<close>

text \<open>Body of the loop \<^verbatim>\<open>for review in reviews\<close> (lines 309 to 315).\<close>

definition add_review :: "timestamp \<Rightarrow> authors \<Rightarrow> review_event \<Rightarrow> authors" where
  "add_review one_year_ago_timestamp authors review =
     (let authors1 =
            (if map_of authors (review_event_author review) = None
             then AList.update (review_event_author review) AuthorCounts_init authors
             else authors);
          authors2 =
            AList.map_entry (review_event_author review)
              (\<lambda>c. c\<lparr>total_reviews := total_reviews c + 1\<rparr>) authors1
      in if reviewDate review \<ge> one_year_ago_timestamp
         then AList.map_entry (review_event_author review)
                (\<lambda>c. c\<lparr>reviews_in_last_year := reviews_in_last_year c + 1\<rparr>) authors2
         else authors2)"

text \<open>Body of the loop \<^verbatim>\<open>for commit in commits\<close> (lines 318 to 324).\<close>

definition add_commit :: "timestamp \<Rightarrow> authors \<Rightarrow> commit_event \<Rightarrow> authors" where
  "add_commit one_year_ago_timestamp authors commit =
     (let authors1 =
            (if map_of authors (commit_event_author commit) = None
             then AList.update (commit_event_author commit) AuthorCounts_init authors
             else authors);
          authors2 =
            AList.map_entry (commit_event_author commit)
              (\<lambda>c. c\<lparr>total_commits := total_commits c + 1\<rparr>) authors1
      in if commit_event_authoredDate commit \<ge> one_year_ago_timestamp
         then AList.map_entry (commit_event_author commit)
                (\<lambda>c. c\<lparr>commits_in_last_year := commits_in_last_year c + 1\<rparr>) authors2
         else authors2)"

text \<open>
  One repository's pass of \<^verbatim>\<open>main\<close>: \<^verbatim>\<open>authors = {}\<close>, then every review, then every
  commit.
\<close>

definition aggregate :: "timestamp \<Rightarrow> review_event list \<Rightarrow> commit_event list \<Rightarrow> authors" where
  "aggregate one_year_ago_timestamp reviews commits =
     foldl (add_commit one_year_ago_timestamp)
       (foldl (add_review one_year_ago_timestamp) [] reviews) commits"

text \<open>
  An event of either kind, and the loop body that \<^verbatim>\<open>main\<close> runs for it. A list of
  events applied in its own order is what the claims about event order speak of;
  \<^const>\<open>aggregate\<close> is the order "reviews, then commits".
\<close>

datatype event = ReviewEvent review_event | CommitEvent commit_event

fun apply_event :: "timestamp \<Rightarrow> authors \<Rightarrow> event \<Rightarrow> authors" where
  "apply_event t authors (ReviewEvent review) = add_review t authors review"
| "apply_event t authors (CommitEvent commit) = add_commit t authors commit"

fun event_author :: "event \<Rightarrow> string" where
  "event_author (ReviewEvent review) = review_event_author review"
| "event_author (CommitEvent commit) = commit_event_author commit"

definition apply_events :: "timestamp \<Rightarrow> authors \<Rightarrow> event list \<Rightarrow> authors" where
  "apply_events t authors evs = foldl (apply_event t) authors evs"

text \<open>The bounds that the data model states for one record.\<close>

definition counts_ok :: "AuthorCounts \<Rightarrow> bool" where
  "counts_ok c \<longleftrightarrow>
     0 \<le> commits_in_last_year c \<and> commits_in_last_year c \<le> total_commits c \<and>
     0 \<le> reviews_in_last_year c \<and> reviews_in_last_year c \<le> total_reviews c \<and>
     0 \<le> total_commits c \<and> 0 \<le> total_reviews c"

text \<open>
  The effect of one event on the mapping, read as a function from authors to records:
  the record of the event's author (a fresh one if there is none) gets its total
  incremented and, inside the window, its windowed counter too.
\<close>

definition bump_review :: "bool \<Rightarrow> AuthorCounts \<Rightarrow> AuthorCounts" where
  "bump_review in_window c =
     c\<lparr>total_reviews := total_reviews c + 1,
       reviews_in_last_year := reviews_in_last_year c + (if in_window then 1 else 0)\<rparr>"

definition bump_commit :: "bool \<Rightarrow> AuthorCounts \<Rightarrow> AuthorCounts" where
  "bump_commit in_window c =
     c\<lparr>total_commits := total_commits c + 1,
       commits_in_last_year := commits_in_last_year c + (if in_window then 1 else 0)\<rparr>"

fun bump :: "timestamp \<Rightarrow> event \<Rightarrow> AuthorCounts \<Rightarrow> AuthorCounts" where
  "bump t (ReviewEvent review) = bump_review (reviewDate review \<ge> t)"
| "bump t (CommitEvent commit) = bump_commit (commit_event_authoredDate commit \<ge> t)"

definition counts_of :: "(string \<rightharpoonup> AuthorCounts) \<Rightarrow> string \<Rightarrow> AuthorCounts" where
  "counts_of m a = (case m a of None \<Rightarrow> AuthorCounts_init | Some c \<Rightarrow> c)"

definition step_map :: "timestamp \<Rightarrow> event \<Rightarrow> (string \<rightharpoonup> AuthorCounts) \<Rightarrow> (string \<rightharpoonup> AuthorCounts)" where
  "step_map t e m = m(event_author e \<mapsto> bump t e (counts_of m (event_author e)))"

section \<open>Responses of the GraphQL API\<close>

text \<open>
  \<^verbatim>\<open>request.json()\<close> is a JSON object. The walkers read fixed paths of keys in it. A key
  on such a path that the program tests, or that the API may leave out or answer with
  \<^verbatim>\<open>null\<close>, is a \<open>field\<close>: absent, \<^verbatim>\<open>None\<close>, or a value.
\<close>

datatype 'a field = Missing | Null | Present 'a

text \<open>
  A walker is a function of the answers that \<^verbatim>\<open>requests.post\<close> gives to its queries.
  Within one call the organization, the repository and the key are fixed and only the
  cursor arguments of the query change, so the answers are given as a function \<open>fetch\<close>
  of these arguments: the API is taken to answer a query the same way whenever it is
  asked during the run.
\<close>

text \<open>
  The exceptions the walkers can raise: the three explicit \<^verbatim>\<open>raise Exception(...)\<close>, and
  Python's own \<^verbatim>\<open>KeyError\<close> (a dict has no such key) and \<^verbatim>\<open>TypeError\<close> (\<^verbatim>\<open>None\<close> is
  subscripted, or tested with \<^verbatim>\<open>in\<close>). None of them is caught anywhere, so each one ends
  the run.
\<close>

datatype error =
    QueryFailed int
  | UnexpectedData
  | RepoDoesNotExist
  | KeyError string
  | TypeError

text \<open>
  \<^verbatim>\<open>d[k][...]\<close>: reading key \<open>k\<close> and subscripting what was read. A missing key raises
  \<^verbatim>\<open>KeyError\<close> at the first subscript, a \<^verbatim>\<open>None\<close> value raises \<^verbatim>\<open>TypeError\<close> at the next.
\<close>

fun subscript :: "string \<Rightarrow> 'a field \<Rightarrow> error + 'a" where
  "subscript k Missing = Inl (KeyError k)"
| "subscript k Null = Inl TypeError"
| "subscript k (Present v) = Inr v"

text \<open>\<^verbatim>\<open>x['login']\<close> where \<open>x\<close> is an author object or \<^verbatim>\<open>None\<close>.\<close>

fun login :: "string option \<Rightarrow> error + string" where
  "login None = Inl TypeError"
| "login (Some l) = Inr l"

text \<open>
  \<^verbatim>\<open>datetime.datetime.strptime(x, '%Y-%m-%dT%H:%M:%SZ').timestamp()\<close> where \<open>x\<close> is a
  date string of the API (given here by the instant it denotes) or \<^verbatim>\<open>None\<close>.
\<close>

fun strptime_timestamp :: "timestamp option \<Rightarrow> error + timestamp" where
  "strptime_timestamp None = Inl TypeError"
| "strptime_timestamp (Some t) = Inr t"

record page_info =
  hasNextPage :: bool
  endCursor :: "string option"

record 'n connection =
  pageInfo :: page_info
  nodes :: "'n list"

record 'a response =
  status_code :: int
  data :: "'a field"

text \<open>\<^verbatim>\<open>'%s' % x\<close> for a cursor: a string prints as itself, \<^verbatim>\<open>None\<close> as \<^verbatim>\<open>None\<close>.\<close>

fun format_s :: "string option \<Rightarrow> string" where
  "format_s None = ''None''"
| "format_s (Some s) = s"

text \<open>\<^verbatim>\<open>', after: "%s"' % cursor\<close>; the character 0x22 is the double quote.\<close>

definition after_arg :: "string option \<Rightarrow> string" where
  "after_arg cursor = '', after: '' @ [CHR 0x22] @ format_s cursor @ [CHR 0x22]"

section \<open>Repository Lister: get_org_repos_from_name\<close>

record repo_node =
  defaultBranchRef :: "string option"
  repo_name :: string
  isArchived :: bool

record organization_data =
  organization :: "repo_node connection field"

type_synonym repos_response = "organization_data response"

text \<open>
  The loop over \<^verbatim>\<open>result['data']['organization']['repositories']['nodes']\<close>; the dict
  \<^verbatim>\<open>repos\<close> is an association list in insertion order, \<open>defaultBranchRef\<close> holds the
  branch's name.
\<close>

fun add_repos :: "repo_node list \<Rightarrow> (string \<times> string) list \<Rightarrow> (string \<times> string) list" where
  "add_repos [] repos = repos"
| "add_repos (repo # rest) repos =
     (case defaultBranchRef repo of
        None \<Rightarrow> add_repos rest repos
      | Some branch \<Rightarrow>
          if isArchived repo then add_repos rest repos
          else add_repos rest (AList.update (repo_name repo) branch repos))"

text \<open>
  The \<^verbatim>\<open>while True\<close> loop. \<open>fetch history_args\<close> is the answer of \<^verbatim>\<open>requests.post\<close> to
  the query built from the organization and \<open>history_args\<close>. The result is \<open>None\<close> when
  the loop never ends, \<open>Some (Inl e)\<close> when it raises, \<open>Some (Inr repos)\<close> when it returns.
\<close>

partial_function (option) repos_loop ::
  "(string \<Rightarrow> repos_response) \<Rightarrow> string \<Rightarrow> (string \<times> string) list
     \<Rightarrow> (error + (string \<times> string) list) option" where
  "repos_loop fetch history_args repos =
     (let request = fetch history_args in
      if status_code request \<noteq> 200 then Some (Inl (QueryFailed (status_code request)))
      else case subscript ''data'' (data request) of
        Inl e \<Rightarrow> Some (Inl e)
      | Inr d \<Rightarrow>
         (case subscript ''organization'' (organization d) of
            Inl e \<Rightarrow> Some (Inl e)
          | Inr repositories \<Rightarrow>
             (let repos' = add_repos (nodes repositories) repos in
              if \<not> hasNextPage (pageInfo repositories) then Some (Inr repos')
              else repos_loop fetch (after_arg (endCursor (pageInfo repositories))) repos')))"

definition get_org_repos_from_name ::
  "(string \<Rightarrow> repos_response) \<Rightarrow> (error + (string \<times> string) list) option" where
  "get_org_repos_from_name fetch = repos_loop fetch '''' []"

section \<open>Commit History Walker: get_commits\<close>

record commit_node =
  author_name :: string
  author_user :: "string option"
  authoredDate :: timestamp

record commit_history =
  history_pageInfo :: page_info
  edges :: "commit_node list"

record ref_data =
  ref :: "commit_history field"

record repository_commits =
  commits_repository :: "ref_data field"

type_synonym commits_response = "repository_commits response"

text \<open>
  The loop over \<^verbatim>\<open>history['edges']\<close>: the login of the linked account if there is one,
  the author name of the commit otherwise.
\<close>

fun add_commits :: "commit_node list \<Rightarrow> commit_event list \<Rightarrow> commit_event list" where
  "add_commits [] commits = commits"
| "add_commits (node # rest) commits =
     (let author = (case author_user node of Some l \<Rightarrow> l | None \<Rightarrow> author_name node)
      in add_commits rest
           (commits @ [\<lparr>commit_event_author = author,
                        commit_event_authoredDate = authoredDate node\<rparr>]))"

text \<open>
  The \<^verbatim>\<open>while True\<close> loop with its four checks: the status, \<^verbatim>\<open>'data' in result\<close>,
  then \<^verbatim>\<open>repository\<close> and \<^verbatim>\<open>ref\<close> missing or \<^verbatim>\<open>None\<close>. When \<^verbatim>\<open>result['data']\<close> is
  \<^verbatim>\<open>None\<close>, the test \<^verbatim>\<open>'repository' in result['data']\<close> raises \<^verbatim>\<open>TypeError\<close>.
\<close>

partial_function (option) commits_loop ::
  "(string \<Rightarrow> commits_response) \<Rightarrow> string \<Rightarrow> commit_event list
     \<Rightarrow> (error + commit_event list) option" where
  "commits_loop fetch history_args commits =
     (let request = fetch history_args in
      if status_code request \<noteq> 200 then Some (Inl (QueryFailed (status_code request)))
      else case data request of
        Missing \<Rightarrow> Some (Inl UnexpectedData)
      | Null \<Rightarrow> Some (Inl TypeError)
      | Present d \<Rightarrow>
         (case commits_repository d of
            Missing \<Rightarrow> Some (Inl RepoDoesNotExist)
          | Null \<Rightarrow> Some (Inl RepoDoesNotExist)
          | Present repository \<Rightarrow>
             (case ref repository of
                Missing \<Rightarrow> Some (Inl RepoDoesNotExist)
              | Null \<Rightarrow> Some (Inl RepoDoesNotExist)
              | Present history \<Rightarrow>
                 (let commits' = add_commits (edges history) commits in
                  if \<not> hasNextPage (history_pageInfo history) then Some (Inr commits')
                  else commits_loop fetch
                         (after_arg (endCursor (history_pageInfo history))) commits'))))"

definition get_commits ::
  "(string \<Rightarrow> commits_response) \<Rightarrow> (error + commit_event list) option" where
  "get_commits fetch = commits_loop fetch '''' []"

section \<open>Review History Walker: get_reviews\<close>

record review_node =
  review_author :: "string option"
  submittedAt :: "timestamp option"

record pr_node =
  pr_author :: "string option"
  reviews :: "review_node connection"

record repository_reviews =
  reviews_repository :: "pr_node connection field"

type_synonym reviews_response = "repository_reviews response"

text \<open>
  The loop \<^verbatim>\<open>for review in reviews['nodes']\<close> (lines 161 to 183), with its three
  \<^verbatim>\<open>continue\<close>s. \<open>review_author\<close> and \<open>pr_author\<close> hold the login of the author
  object, or \<open>None\<close> when the object is \<^verbatim>\<open>null\<close>.
\<close>

fun scan_reviews ::
  "string \<Rightarrow> review_node list \<Rightarrow> review_event list \<Rightarrow> error + review_event list" where
  "scan_reviews pr_author_login [] reviewers = Inr reviewers"
| "scan_reviews pr_author_login (review # rest) reviewers =
     (if review_author review = None then scan_reviews pr_author_login rest reviewers
      else case login (review_author review) of
        Inl e \<Rightarrow> Inl e
      | Inr review_author_login \<Rightarrow>
          if pr_author_login = review_author_login
          then scan_reviews pr_author_login rest reviewers
          else if submittedAt review = None
          then scan_reviews pr_author_login rest reviewers
          else case strptime_timestamp (submittedAt review) of
            Inl e \<Rightarrow> Inl e
          | Inr t \<Rightarrow>
              scan_reviews pr_author_login rest
                (reviewers @ [\<lparr>review_event_author = review_author_login, reviewDate = t\<rparr>]))"

text \<open>
  The loop \<^verbatim>\<open>for pr in prs\<close> (lines 154 to 187). It returns the list \<^verbatim>\<open>reviewers\<close> and
  the value of \<^verbatim>\<open>review_history_args\<close> at its end: the empty string that line 153 set,
  unless a pull request reported more reviews and the loop left by \<^verbatim>\<open>break\<close>.
\<close>

fun scan_prs ::
  "pr_node list \<Rightarrow> review_event list \<Rightarrow> error + (review_event list \<times> string)" where
  "scan_prs [] reviewers = Inr (reviewers, '''')"
| "scan_prs (pr # rest) reviewers =
     (case (if pr_author pr = None then Inr '''' else login (pr_author pr)) of
        Inl e \<Rightarrow> Inl e
      | Inr pr_author_login \<Rightarrow>
         (case scan_reviews pr_author_login (nodes (reviews pr)) reviewers of
            Inl e \<Rightarrow> Inl e
          | Inr reviewers' \<Rightarrow>
              if hasNextPage (pageInfo (reviews pr))
              then Inr (reviewers', after_arg (endCursor (pageInfo (reviews pr))))
              else scan_prs rest reviewers'))"

text \<open>
  The inner \<^verbatim>\<open>while True\<close> (lines 116 to 190). \<open>fetch pr_history_args
  review_history_args\<close> is the answer to the query built from the repository and the two
  argument strings. The loop returns the last \<^verbatim>\<open>pullRequests\<close> object, which the outer
  loop reads, and \<^verbatim>\<open>reviewers\<close>.
\<close>

partial_function (option) reviews_inner_loop ::
  "(string \<Rightarrow> string \<Rightarrow> reviews_response) \<Rightarrow> string \<Rightarrow> string \<Rightarrow> review_event list
     \<Rightarrow> (error + (pr_node connection \<times> review_event list)) option" where
  "reviews_inner_loop fetch pr_history_args review_history_args reviewers =
     (let request = fetch pr_history_args review_history_args in
      if status_code request \<noteq> 200 then Some (Inl (QueryFailed (status_code request)))
      else case subscript ''data'' (data request) of
        Inl e \<Rightarrow> Some (Inl e)
      | Inr d \<Rightarrow>
         (case subscript ''repository'' (reviews_repository d) of
            Inl e \<Rightarrow> Some (Inl e)
          | Inr pullRequests \<Rightarrow>
             (case scan_prs (nodes pullRequests) reviewers of
                Inl e \<Rightarrow> Some (Inl e)
              | Inr (reviewers', review_history_args') \<Rightarrow>
                  if review_history_args' = '''' then Some (Inr (pullRequests, reviewers'))
                  else reviews_inner_loop fetch pr_history_args review_history_args'
                         reviewers')))"

text \<open>
  The outer \<^verbatim>\<open>while True\<close> (lines 115 to 195). The inner loop is entered with
  \<^verbatim>\<open>review_history_args\<close> empty: it is empty at the start and whenever the inner loop
  ends.
\<close>

partial_function (option) reviews_outer_loop ::
  "(string \<Rightarrow> string \<Rightarrow> reviews_response) \<Rightarrow> string \<Rightarrow> review_event list
     \<Rightarrow> (error + review_event list) option" where
  "reviews_outer_loop fetch pr_history_args reviewers =
     (case reviews_inner_loop fetch pr_history_args '''' reviewers of
        None \<Rightarrow> None
      | Some (Inl e) \<Rightarrow> Some (Inl e)
      | Some (Inr (pr_history, reviewers')) \<Rightarrow>
          if \<not> hasNextPage (pageInfo pr_history) then Some (Inr reviewers')
          else reviews_outer_loop fetch (after_arg (endCursor (pageInfo pr_history)))
                 reviewers')"

definition get_reviews ::
  "(string \<Rightarrow> string \<Rightarrow> reviews_response) \<Rightarrow> (error + review_event list) option" where
  "get_reviews fetch = reviews_outer_loop fetch '''' []"

section \<open>The API as the walkers see it\<close>

text \<open>
  The walkers are functions of the answers they get. To state what they compute for a
  given organization or repository, the API is modelled as GraphQL defines a connection:
  \<^verbatim>\<open>first:100, after: c\<close> answers the 100 items that follow position \<open>c\<close>, with
  \<^verbatim>\<open>hasNextPage\<close> telling whether items remain after them. A cursor is a position,
  written in unary with the character \<open>#\<close>; the empty argument string is position 0.
\<close>

definition cursor_of :: "nat \<Rightarrow> string" where
  "cursor_of n = replicate n (CHR ''#'')"

definition cursor_pos :: "string \<Rightarrow> nat" where
  "cursor_pos args = length (filter (\<lambda>c. c = CHR ''#'') args)"

definition page_at :: "nat \<Rightarrow> 'a list \<Rightarrow> 'a connection" where
  "page_at pos xs =
     \<lparr>pageInfo = \<lparr>hasNextPage = pos + 100 < length xs,
                  endCursor = Some (cursor_of (pos + 100))\<rparr>,
      nodes = take 100 (drop pos xs)\<rparr>"

text \<open>An organization with the repositories \<open>listing\<close>.\<close>

definition github_repos_api :: "repo_node list \<Rightarrow> string \<Rightarrow> repos_response" where
  "github_repos_api listing history_args =
     \<lparr>status_code = 200,
      data = Present \<lparr>organization = Present (page_at (cursor_pos history_args) listing)\<rparr>\<rparr>"

text \<open>
  A repository: its pull requests, each with the login of its author (\<open>None\<close> for a
  deleted account) and all of its reviews. The query asks \<^verbatim>\<open>pullRequests(first:100 ...)\<close>
  and inside each of them \<^verbatim>\<open>reviews(first:100 ...)\<close>: the arguments of the inner
  connection are part of the one query, so the API applies them to the reviews of
  every pull request of the page.
\<close>

record pull_request =
  pr_login :: "string option"
  pr_reviews :: "review_node list"

definition pr_page :: "nat \<Rightarrow> pull_request \<Rightarrow> pr_node" where
  "pr_page pos pr = \<lparr>pr_author = pr_login pr, reviews = page_at pos (pr_reviews pr)\<rparr>"

definition github_reviews_api :: "pull_request list \<Rightarrow> string \<Rightarrow> string \<Rightarrow> reviews_response" where
  "github_reviews_api repo pr_history_args review_history_args =
     \<lparr>status_code = 200,
      data = Present \<lparr>reviews_repository = Present
               (page_at (cursor_pos pr_history_args)
                  (map (pr_page (cursor_pos review_history_args)) repo))\<rparr>\<rparr>"

text \<open>
  The same kind of repository behind cursors that name an item, as GitHub's do (they
  encode the database id of the last item of the page): every review has an id, the
  reviews of a pull request are listed by ascending id, the end cursor of a page is the
  id of its last review, and \<^verbatim>\<open>after: c\<close> answers the reviews whose id is above \<open>c\<close>.
  The inner argument is again applied to the reviews of every pull request of the page.
\<close>

record keyed_pull_request =
  keyed_login :: "string option"
  keyed_reviews :: "(nat \<times> review_node) list"

definition keyset_page :: "nat \<Rightarrow> (nat \<times> 'a) list \<Rightarrow> 'a connection" where
  "keyset_page c xs =
     (let rest = filter (\<lambda>p. c < fst p) xs; page = take 100 rest
      in \<lparr>pageInfo = \<lparr>hasNextPage = 100 < length rest,
                       endCursor = (if page = [] then None
                                    else Some (cursor_of (fst (last page))))\<rparr>,
          nodes = map snd page\<rparr>)"

definition keyed_pr_page :: "nat \<Rightarrow> keyed_pull_request \<Rightarrow> pr_node" where
  "keyed_pr_page c pr = \<lparr>pr_author = keyed_login pr, reviews = keyset_page c (keyed_reviews pr)\<rparr>"

definition github_keyset_reviews_api ::
  "keyed_pull_request list \<Rightarrow> string \<Rightarrow> string \<Rightarrow> reviews_response" where
  "github_keyset_reviews_api repo pr_history_args review_history_args =
     \<lparr>status_code = 200,
      data = Present \<lparr>reviews_repository = Present
               (page_at (cursor_pos pr_history_args)
                  (map (keyed_pr_page (cursor_pos review_history_args)) repo))\<rparr>\<rparr>"

text \<open>
  What the data model says a pull request contributes: one event for each review that
  has an author, whose author is not the author of the pull request (the empty login
  stands for a deleted author of the pull request), and that has been submitted.
\<close>

definition counted :: "string option \<Rightarrow> review_node \<Rightarrow> bool" where
  "counted author r \<longleftrightarrow>
     review_author r \<noteq> None \<and>
     review_author r \<noteq> Some (case author of None \<Rightarrow> '''' | Some l \<Rightarrow> l) \<and>
     submittedAt r \<noteq> None"

definition event_of :: "review_node \<Rightarrow> review_event" where
  "event_of r = \<lparr>review_event_author = the (review_author r), reviewDate = the (submittedAt r)\<rparr>"

definition review_events :: "string option \<Rightarrow> review_node list \<Rightarrow> review_event list" where
  "review_events author rs = map event_of (filter (counted author) rs)"

section \<open>Responses that a walker can use, and the requests a run reaches\<close>

text \<open>
  A response is usable when its status is 200 and every object on the walker's path is
  there: \<^verbatim>\<open>data\<close>, and below it \<^verbatim>\<open>organization\<close> for the lister,
  \<^verbatim>\<open>repository\<close> for the review walker, \<^verbatim>\<open>repository\<close> and \<^verbatim>\<open>ref\<close> for the commit
  walker. Any other response has a status that is not 200, or one of these keys is
  missing, or its value is \<^verbatim>\<open>null\<close>.
\<close>

definition repos_response_ok :: "repos_response \<Rightarrow> bool" where
  "repos_response_ok r \<longleftrightarrow>
     status_code r = 200 \<and>
     (case data r of
        Present d \<Rightarrow> (case organization d of Present c \<Rightarrow> True | _ \<Rightarrow> False)
      | _ \<Rightarrow> False)"

definition commits_response_ok :: "commits_response \<Rightarrow> bool" where
  "commits_response_ok r \<longleftrightarrow>
     status_code r = 200 \<and>
     (case data r of
        Present d \<Rightarrow>
          (case commits_repository d of
             Present repository \<Rightarrow> (case ref repository of Present h \<Rightarrow> True | _ \<Rightarrow> False)
           | _ \<Rightarrow> False)
      | _ \<Rightarrow> False)"

definition reviews_response_ok :: "reviews_response \<Rightarrow> bool" where
  "reviews_response_ok r \<longleftrightarrow>
     status_code r = 200 \<and>
     (case data r of
        Present d \<Rightarrow> (case reviews_repository d of Present c \<Rightarrow> True | _ \<Rightarrow> False)
      | _ \<Rightarrow> False)"

text \<open>
  The states in which a run of a walker issues a request: the initial one, and the one
  that follows a state whose response let the loop go round again. For the lister and the
  commit walker a state is the argument string and the result so far.
\<close>

inductive repos_reached ::
  "(string \<Rightarrow> repos_response) \<Rightarrow> string \<Rightarrow> (string \<times> string) list \<Rightarrow> bool"
  for fetch :: "string \<Rightarrow> repos_response" where
  repos_start: "repos_reached fetch '''' []"
| repos_next:
    "repos_reached fetch history_args repos \<Longrightarrow>
     status_code (fetch history_args) = 200 \<Longrightarrow>
     data (fetch history_args) = Present d \<Longrightarrow>
     organization d = Present repositories \<Longrightarrow>
     hasNextPage (pageInfo repositories) \<Longrightarrow>
     repos_reached fetch (after_arg (endCursor (pageInfo repositories)))
       (add_repos (nodes repositories) repos)"

inductive commits_reached ::
  "(string \<Rightarrow> commits_response) \<Rightarrow> string \<Rightarrow> commit_event list \<Rightarrow> bool"
  for fetch :: "string \<Rightarrow> commits_response" where
  commits_start: "commits_reached fetch '''' []"
| commits_next:
    "commits_reached fetch history_args commits \<Longrightarrow>
     status_code (fetch history_args) = 200 \<Longrightarrow>
     data (fetch history_args) = Present d \<Longrightarrow>
     commits_repository d = Present repository \<Longrightarrow>
     ref repository = Present history \<Longrightarrow>
     hasNextPage (history_pageInfo history) \<Longrightarrow>
     commits_reached fetch (after_arg (endCursor (history_pageInfo history)))
       (add_commits (edges history) commits)"

text \<open>
  For the review walker a state is the two argument strings and \<^verbatim>\<open>reviewers\<close>. After a
  page on which a pull request reported more reviews, the next request has the same
  outer argument and that pull request's cursor as inner argument; after a page without
  such a pull request, and with more pull requests to come, the next request has the
  next outer argument and the inner argument empty.
\<close>

inductive reviews_reached ::
  "(string \<Rightarrow> string \<Rightarrow> reviews_response) \<Rightarrow> string \<Rightarrow> string \<Rightarrow> review_event list \<Rightarrow> bool"
  for fetch :: "string \<Rightarrow> string \<Rightarrow> reviews_response" where
  reviews_start: "reviews_reached fetch '''' '''' []"
| reviews_more:
    "reviews_reached fetch pr_history_args review_history_args reviewers \<Longrightarrow>
     status_code (fetch pr_history_args review_history_args) = 200 \<Longrightarrow>
     data (fetch pr_history_args review_history_args) = Present d \<Longrightarrow>
     reviews_repository d = Present pullRequests \<Longrightarrow>
     scan_prs (nodes pullRequests) reviewers = Inr (reviewers', review_history_args') \<Longrightarrow>
     review_history_args' \<noteq> '''' \<Longrightarrow>
     reviews_reached fetch pr_history_args review_history_args' reviewers'"
| reviews_next:
    "reviews_reached fetch pr_history_args review_history_args reviewers \<Longrightarrow>
     status_code (fetch pr_history_args review_history_args) = 200 \<Longrightarrow>
     data (fetch pr_history_args review_history_args) = Present d \<Longrightarrow>
     reviews_repository d = Present pullRequests \<Longrightarrow>
     scan_prs (nodes pullRequests) reviewers = Inr (reviewers', '''') \<Longrightarrow>
     hasNextPage (pageInfo pullRequests) \<Longrightarrow>
     reviews_reached fetch (after_arg (endCursor (pageInfo pullRequests))) '''' reviewers'"

text \<open>
  The rest of a run of the review walker from a state: the inner loop from there, then
  the outer loop's test and its next rounds.
\<close>

definition reviews_resume ::
  "(string \<Rightarrow> string \<Rightarrow> reviews_response) \<Rightarrow> string \<Rightarrow> string \<Rightarrow> review_event list
     \<Rightarrow> (error + review_event list) option" where
  "reviews_resume fetch pr_history_args review_history_args reviewers =
     (case reviews_inner_loop fetch pr_history_args review_history_args reviewers of
        None \<Rightarrow> None
      | Some (Inl e) \<Rightarrow> Some (Inl e)
      | Some (Inr (pr_history, reviewers')) \<Rightarrow>
          if \<not> hasNextPage (pageInfo pr_history) then Some (Inr reviewers')
          else reviews_outer_loop fetch (after_arg (endCursor (pageInfo pr_history)))
                 reviewers')"

text \<open>
  Where an event can come from: a review on a page of a usable response, with the
  event's author and date, on a pull request whose author is not the review's author.
\<close>

definition page_source :: "pr_node list \<Rightarrow> review_event \<Rightarrow> bool" where
  "page_source prs ev \<longleftrightarrow>
     (\<exists>pr \<in> set prs. \<exists>r \<in> set (nodes (reviews pr)).
        review_author r = Some (review_event_author ev) \<and>
        submittedAt r = Some (reviewDate ev) \<and>
        pr_author pr \<noteq> review_author r)"

definition review_source ::
  "(string \<Rightarrow> string \<Rightarrow> reviews_response) \<Rightarrow> review_event \<Rightarrow> bool" where
  "review_source fetch ev \<longleftrightarrow>
     (\<exists>pr_history_args review_history_args d pullRequests.
        status_code (fetch pr_history_args review_history_args) = 200 \<and>
        data (fetch pr_history_args review_history_args) = Present d \<and>
        reviews_repository d = Present pullRequests \<and>
        page_source (nodes pullRequests) ev)"

section \<open>Reporter: print_authors and print_csv\<close>

text \<open>The sort key of both functions: \<^verbatim>\<open>lambda item: item[1].commits_in_last_year + item[1].reviews_in_last_year\<close>.\<close>

definition activity :: "string \<times> AuthorCounts \<Rightarrow> int" where
  "activity item = commits_in_last_year (snd item) + reviews_in_last_year (snd item)"

text \<open>
  \<^verbatim>\<open>sorted(xs, key=key, reverse=True)\<close>. Python's sort is stable and, as its documentation
  says, stays so with \<^verbatim>\<open>reverse=True\<close>: the result is in descending order of the key and
  items with equal keys keep the order they had. For integer keys this is the stable
  ascending sort by the negated key.
\<close>

definition sorted_reverse :: "('a \<Rightarrow> int) \<Rightarrow> 'a list \<Rightarrow> 'a list" where
  "sorted_reverse key xs = sort_key (\<lambda>x. - key x) xs"

text \<open>The dict comprehension \<^verbatim>\<open>{key: value for key, value in items}\<close>.\<close>

definition dict_of_items :: "('k \<times> 'v) list \<Rightarrow> ('k \<times> 'v) list" where
  "dict_of_items items = foldl (\<lambda>d (k, v). AList.update k v d) [] items"

definition sorted_authors :: "authors \<Rightarrow> authors" where
  "sorted_authors authors = dict_of_items (sorted_reverse activity authors)"

text \<open>\<^verbatim>\<open>'%d' % n\<close> and \<^verbatim>\<open>str(n)\<close> for an integer.\<close>

definition digit :: "nat \<Rightarrow> char" where
  "digit n = ''0123456789'' ! n"

fun str_nat :: "nat \<Rightarrow> string" where
  "str_nat n = (if n < 10 then [digit n] else str_nat (n div 10) @ [digit (n mod 10)])"

definition str_int :: "int \<Rightarrow> string" where
  "str_int i = (if i < 0 then CHR ''-'' # str_nat (nat (- i)) else str_nat (nat i))"

text \<open>
  \<^verbatim>\<open>' ' * (len(column) - len(s))\<close>: no space at all when \<open>s\<close> is longer than the column.
  Lengths count characters, as Python's do for the ASCII text that is printed here.
\<close>

definition pad :: "nat \<Rightarrow> string \<Rightarrow> string" where
  "pad width s = replicate (width - length s) (CHR '' '')"

text \<open>
  The entries for which the loops of \<^verbatim>\<open>print_csv\<close> and of \<^verbatim>\<open>print_authors\<close> print a
  row, in the order of the rows: all of \<^verbatim>\<open>sorted_authors\<close> with totals, and without
  totals those that the \<^verbatim>\<open>continue\<close> does not skip. Each function computes
  \<^verbatim>\<open>sorted_authors\<close> by the same expression and has the same test.
\<close>

definition print_csv_rows :: "authors \<Rightarrow> bool \<Rightarrow> authors" where
  "print_csv_rows authors print_totals =
     (if print_totals then sorted_authors authors
      else filter (\<lambda>(author, counts).
                    \<not> (commits_in_last_year counts = 0 \<and> reviews_in_last_year counts = 0))
             (sorted_authors authors))"

definition print_authors_rows :: "authors \<Rightarrow> bool \<Rightarrow> authors" where
  "print_authors_rows authors print_totals =
     (if print_totals then sorted_authors authors
      else filter (\<lambda>(author, counts).
                    \<not> (commits_in_last_year counts = 0 \<and> reviews_in_last_year counts = 0))
             (sorted_authors authors))"

text \<open>The lines that \<^verbatim>\<open>print_csv\<close> prints.\<close>

definition print_csv :: "authors \<Rightarrow> bool \<Rightarrow> string list" where
  "print_csv authors print_totals =
     (if print_totals
      then [''Author,Commits in last year,Total commits,Reviews in last year,Total reviews'']
           @ map (\<lambda>(author, counts).
                    author @ '','' @ str_int (commits_in_last_year counts)
                      @ '','' @ str_int (total_commits counts)
                      @ '','' @ str_int (reviews_in_last_year counts)
                      @ '','' @ str_int (total_reviews counts))
               (print_csv_rows authors print_totals)
      else [''Author,Commits in last year,Reviews in last year'']
           @ map (\<lambda>(author, counts).
                    author @ '','' @ str_int (commits_in_last_year counts)
                      @ '','' @ str_int (reviews_in_last_year counts))
               (print_csv_rows authors print_totals))
     @ ['''']"

text \<open>
  The lines that \<^verbatim>\<open>print_authors\<close> prints. The column titles are 26, 22, 15, 22 and 13
  characters wide; without totals the last title is stripped to 20 characters.
\<close>

definition author_with_space :: string where
  "author_with_space = ''Author                    ''"

definition commits_with_space :: string where
  "commits_with_space = ''Commits in last year  ''"

definition total_commits_with_space :: string where
  "total_commits_with_space = ''Total commits  ''"

definition reviews_with_space :: string where
  "reviews_with_space = ''Reviews in last year  ''"

definition total_reviews_title :: string where
  "total_reviews_title = ''Total reviews''"

definition print_authors :: "authors \<Rightarrow> bool \<Rightarrow> string list" where
  "print_authors authors print_totals =
     [''''] @
     (if print_totals
      then [author_with_space @ commits_with_space @ total_commits_with_space
              @ reviews_with_space @ total_reviews_title,
            replicate (length author_with_space + length commits_with_space
                         + length total_commits_with_space + length reviews_with_space
                         + length total_reviews_title) (CHR ''-'')]
           @ map (\<lambda>(author, counts).
                    author @ pad (length author_with_space) author
                      @ str_int (commits_in_last_year counts)
                      @ pad (length commits_with_space) (str_int (commits_in_last_year counts))
                      @ str_int (total_commits counts)
                      @ pad (length total_commits_with_space) (str_int (total_commits counts))
                      @ str_int (reviews_in_last_year counts)
                      @ pad (length reviews_with_space) (str_int (reviews_in_last_year counts))
                      @ str_int (total_reviews counts))
               (print_authors_rows authors print_totals)
      else [author_with_space @ commits_with_space @ ''Reviews in last year'',
            replicate (length author_with_space + length commits_with_space
                         + length ''Reviews in last year'') (CHR ''-'')]
           @ map (\<lambda>(author, counts).
                    author @ pad (length author_with_space) author
                      @ str_int (commits_in_last_year counts)
                      @ pad (length commits_with_space) (str_int (commits_in_last_year counts))
                      @ str_int (reviews_in_last_year counts))
               (print_authors_rows authors print_totals))
     @ ['''']"

section \<open>Properties of the aggregator\<close>

lemma map_of_add_review:
  "map_of (add_review t authors review) = step_map t (ReviewEvent review) (map_of authors)"
  by (rule ext)
     (auto simp: add_review_def step_map_def counts_of_def bump_review_def Let_def
        AList.map_of_map_entry AList.update_conv' AuthorCounts_init_def
        split: option.splits)

lemma map_of_add_commit:
  "map_of (add_commit t authors commit) = step_map t (CommitEvent commit) (map_of authors)"
  by (rule ext)
     (auto simp: add_commit_def step_map_def counts_of_def bump_commit_def Let_def
        AList.map_of_map_entry AList.update_conv' AuthorCounts_init_def
        split: option.splits)

lemma map_of_apply_event:
  "map_of (apply_event t authors e) = step_map t e (map_of authors)"
  by (cases e) (simp_all add: map_of_add_review map_of_add_commit)

lemma map_of_apply_events:
  "map_of (apply_events t authors evs) = fold (step_map t) evs (map_of authors)"
  unfolding apply_events_def
  by (induction evs arbitrary: authors) (simp_all add: map_of_apply_event)

lemma bump_commute: "bump t e1 (bump t e2 c) = bump t e2 (bump t e1 c)"
  by (cases e1; cases e2) (simp_all add: bump_review_def bump_commit_def)

lemma step_map_commute: "step_map t e1 \<circ> step_map t e2 = step_map t e2 \<circ> step_map t e1"
proof (rule ext, rule ext)
  fix m a
  show "(step_map t e1 \<circ> step_map t e2) m a = (step_map t e2 \<circ> step_map t e1) m a"
    by (cases "event_author e1 = event_author e2")
       (auto simp: step_map_def counts_of_def bump_commute)
qed

lemma aggregate_apply_events:
  "aggregate t revs coms = apply_events t [] (map ReviewEvent revs @ map CommitEvent coms)"
proof -
  have r: "foldl (apply_event t) a (map ReviewEvent rs) = foldl (add_review t) a rs" for a rs
    by (induction rs arbitrary: a) simp_all
  have c: "foldl (apply_event t) a (map CommitEvent cs) = foldl (add_commit t) a cs" for a cs
    by (induction cs arbitrary: a) simp_all
  show ?thesis by (simp add: aggregate_def apply_events_def r c)
qed

text \<open>
  The example of the specification, in days with today at 1000: commits by \<open>alice\<close>
  10 days ago and by \<open>bob\<close> 400 days ago, one review by \<open>alice\<close> 5 days ago.
\<close>

lemma aggregate_example:
  "aggregate 635
     [\<lparr>review_event_author = ''alice'', reviewDate = 995\<rparr>]
     [\<lparr>commit_event_author = ''alice'', commit_event_authoredDate = 990\<rparr>,
      \<lparr>commit_event_author = ''bob'', commit_event_authoredDate = 600\<rparr>]
   = [(''alice'', \<lparr>total_commits = 1, commits_in_last_year = 1, total_reviews = 1,
                   reviews_in_last_year = 1\<rparr>),
      (''bob'', \<lparr>total_commits = 1, commits_in_last_year = 0, total_reviews = 0,
                 reviews_in_last_year = 0\<rparr>)]"
  by (simp add: aggregate_def add_review_def add_commit_def AuthorCounts_init_def)

text \<open>
  Claim C5. Two event lists that are permutations of each other give the same mapping:
  the same authors, each with the same four counters. (The order in which the dict
  iterates its keys is the order of first occurrence and may differ.)
\<close>

theorem aggregator_commutative:
  "mset evs' = mset evs \<Longrightarrow>
   map_of (apply_events t authors evs') = map_of (apply_events t authors evs)"
proof -
  assume "mset evs' = mset evs"
  then have "fold (step_map t) evs' = fold (step_map t) evs"
    by (intro fold_multiset_equiv step_map_commute)
  then show ?thesis by (simp add: map_of_apply_events)
qed

theorem aggregator_commutative_witness:
  "map_of (apply_events 100 []
      [CommitEvent \<lparr>commit_event_author = ''bob'', commit_event_authoredDate = 40\<rparr>,
       ReviewEvent \<lparr>review_event_author = ''alice'', reviewDate = 150\<rparr>,
       CommitEvent \<lparr>commit_event_author = ''alice'', commit_event_authoredDate = 120\<rparr>])
   = map_of (apply_events 100 []
      [ReviewEvent \<lparr>review_event_author = ''alice'', reviewDate = 150\<rparr>,
       CommitEvent \<lparr>commit_event_author = ''alice'', commit_event_authoredDate = 120\<rparr>,
       CommitEvent \<lparr>commit_event_author = ''bob'', commit_event_authoredDate = 40\<rparr>])"
  by (rule aggregator_commutative) simp

lemma counts_ok_bump: "counts_ok c \<Longrightarrow> counts_ok (bump t e c)"
  by (cases e) (auto simp: counts_ok_def bump_review_def bump_commit_def)

lemma counts_ok_init: "counts_ok AuthorCounts_init"
  by (simp add: counts_ok_def AuthorCounts_init_def)

lemma ran_step_map:
  assumes "\<forall>c \<in> ran m. counts_ok c"
  shows "\<forall>c \<in> ran (step_map t e m). counts_ok c"
proof
  fix c assume "c \<in> ran (step_map t e m)"
  then obtain a where a: "step_map t e m a = Some c" by (auto simp: ran_def)
  show "counts_ok c"
  proof (cases "a = event_author e")
    case True
    with a have "c = bump t e (counts_of m a)" by (simp add: step_map_def)
    moreover have "counts_ok (counts_of m a)"
      using assms by (auto simp: counts_of_def counts_ok_init ran_def split: option.splits)
    ultimately show ?thesis by (simp add: counts_ok_bump)
  next
    case False
    with a have "m a = Some c" by (simp add: step_map_def)
    with assms show ?thesis by (auto simp: ran_def)
  qed
qed

lemma ran_fold_step_map:
  "\<forall>c \<in> ran m. counts_ok c \<Longrightarrow> \<forall>c \<in> ran (fold (step_map t) evs m). counts_ok c"
proof (induction evs arbitrary: m)
  case Nil
  then show ?case by simp
next
  case (Cons e evs)
  from Cons.prems have "\<forall>c \<in> ran (step_map t e m). counts_ok c" by (rule ran_step_map)
  then show ?case using Cons.IH by simp
qed

lemma distinct_apply_event:
  "distinct (map fst authors) \<Longrightarrow> distinct (map fst (apply_event t authors e))"
  by (cases e)
     (simp_all add: add_review_def add_commit_def Let_def AList.distinct_map_entry
        AList.distinct_update)

lemma distinct_apply_events:
  "distinct (map fst authors) \<Longrightarrow> distinct (map fst (apply_events t authors evs))"
  unfolding apply_events_def
  by (induction evs arbitrary: authors) (simp_all add: distinct_apply_event)

text \<open>
  Claim C6. Start from the empty mapping and apply any events: after each of them (after
  the first \<open>n\<close>, for every \<open>n\<close>) every record of the mapping has its windowed counters
  bounded by its totals, and no counter is negative.
\<close>

theorem window_monotonicity:
  "(a, c) \<in> set (apply_events t [] (take n evs)) \<Longrightarrow>
     commits_in_last_year c \<le> total_commits c \<and> reviews_in_last_year c \<le> total_reviews c \<and>
     0 \<le> total_commits c \<and> 0 \<le> commits_in_last_year c \<and>
     0 \<le> total_reviews c \<and> 0 \<le> reviews_in_last_year c"
proof -
  assume h: "(a, c) \<in> set (apply_events t [] (take n evs))"
  have "distinct (map fst (apply_events t [] (take n evs)))"
    by (rule distinct_apply_events) simp
  with h have "map_of (apply_events t [] (take n evs)) a = Some c" by simp
  then have "c \<in> ran (fold (step_map t) (take n evs) Map.empty)"
    by (auto simp: map_of_apply_events ran_def)
  moreover have "\<forall>c \<in> ran (fold (step_map t) (take n evs) Map.empty). counts_ok c"
    by (rule ran_fold_step_map) simp
  ultimately have "counts_ok c" by blast
  then show ?thesis by (simp add: counts_ok_def)
qed

lemma apply_events_example:
  "apply_events 100 []
     [CommitEvent \<lparr>commit_event_author = ''bob'', commit_event_authoredDate = 40\<rparr>,
      ReviewEvent \<lparr>review_event_author = ''alice'', reviewDate = 150\<rparr>] =
   [(''bob'', \<lparr>total_commits = 1, commits_in_last_year = 0, total_reviews = 0,
              reviews_in_last_year = 0\<rparr>),
    (''alice'', \<lparr>total_commits = 0, commits_in_last_year = 0, total_reviews = 1,
              reviews_in_last_year = 1\<rparr>)]"
  by (simp add: apply_events_def add_review_def add_commit_def AuthorCounts_init_def)

theorem window_monotonicity_witness:
  "(''alice'', \<lparr>total_commits = 0, commits_in_last_year = 0, total_reviews = 1,
                reviews_in_last_year = 1\<rparr>)
     \<in> set (apply_events 100 []
          (take 2 [CommitEvent \<lparr>commit_event_author = ''bob'', commit_event_authoredDate = 40\<rparr>,
                   ReviewEvent \<lparr>review_event_author = ''alice'', reviewDate = 150\<rparr>,
                   CommitEvent \<lparr>commit_event_author = ''alice'', commit_event_authoredDate = 120\<rparr>]))
   \<and> reviews_in_last_year \<lparr>total_commits = 0, commits_in_last_year = 0, total_reviews = 1,
                reviews_in_last_year = 1\<rparr>
       \<le> total_reviews \<lparr>total_commits = 0, commits_in_last_year = 0, total_reviews = 1,
                reviews_in_last_year = 1\<rparr>"
  using window_monotonicity [of "''alice''"
      "\<lparr>total_commits = 0, commits_in_last_year = 0, total_reviews = 1,
                reviews_in_last_year = 1\<rparr>" 100 2
      "[CommitEvent \<lparr>commit_event_author = ''bob'', commit_event_authoredDate = 40\<rparr>,
                   ReviewEvent \<lparr>review_event_author = ''alice'', reviewDate = 150\<rparr>,
                   CommitEvent \<lparr>commit_event_author = ''alice'', commit_event_authoredDate = 120\<rparr>]"]
  by (simp add: apply_events_example)

lemma filter_update_other:
  "filter (\<lambda>p. fst p \<noteq> k) (AList.update k v al) = filter (\<lambda>p. fst p \<noteq> k) al"
  by (induction al) simp_all

lemma filter_map_entry_other:
  "filter (\<lambda>p. fst p \<noteq> k) (AList.map_entry k f al) = filter (\<lambda>p. fst p \<noteq> k) al"
  by (induction al) simp_all

lemma filter_apply_event_other:
  "filter (\<lambda>p. fst p \<noteq> event_author e) (apply_event t authors e) =
   filter (\<lambda>p. fst p \<noteq> event_author e) authors"
  by (cases e)
     (simp_all add: add_review_def add_commit_def Let_def filter_update_other
        filter_map_entry_other)

text \<open>
  Claim C10. One event changes nothing but the record of its author, and in that record
  nothing but the counters of its kind: the entries of all other authors stay as they
  are and in their order, every other author looks up the same record, a review event
  leaves the two commit counters of every author (its own included) as they were, and a
  commit event the two review counters. An author without a record counts as holding the
  fresh record, all zero.
\<close>

theorem aggregator_frame:
  "filter (\<lambda>p. fst p \<noteq> event_author e) (apply_event t authors e)
     = filter (\<lambda>p. fst p \<noteq> event_author e) authors \<and>
   (b \<noteq> event_author e \<longrightarrow> map_of (apply_event t authors e) b = map_of authors b) \<and>
   total_commits (counts_of (map_of (apply_event t authors (ReviewEvent r))) x)
     = total_commits (counts_of (map_of authors) x) \<and>
   commits_in_last_year (counts_of (map_of (apply_event t authors (ReviewEvent r))) x)
     = commits_in_last_year (counts_of (map_of authors) x) \<and>
   total_reviews (counts_of (map_of (apply_event t authors (CommitEvent k))) x)
     = total_reviews (counts_of (map_of authors) x) \<and>
   reviews_in_last_year (counts_of (map_of (apply_event t authors (CommitEvent k))) x)
     = reviews_in_last_year (counts_of (map_of authors) x)"
  unfolding map_of_apply_event filter_apply_event_other
  by (simp add: step_map_def counts_of_def bump_review_def bump_commit_def)

theorem aggregator_frame_witness:
  "''bob'' \<noteq> event_author (ReviewEvent \<lparr>review_event_author = ''alice'', reviewDate = 150\<rparr>) \<and>
   map_of (apply_event 100
       [(''bob'', \<lparr>total_commits = 1, commits_in_last_year = 0, total_reviews = 0,
                  reviews_in_last_year = 0\<rparr>)]
       (ReviewEvent \<lparr>review_event_author = ''alice'', reviewDate = 150\<rparr>)) ''bob''
     = Some \<lparr>total_commits = 1, commits_in_last_year = 0, total_reviews = 0,
             reviews_in_last_year = 0\<rparr>"
  using aggregator_frame [of "ReviewEvent \<lparr>review_event_author = ''alice'', reviewDate = 150\<rparr>"
      100 "[(''bob'', \<lparr>total_commits = 1, commits_in_last_year = 0, total_reviews = 0,
                  reviews_in_last_year = 0\<rparr>)]" "''bob''"]
  by simp

section \<open>Properties of the Repository Lister\<close>

lemma cursor_pos_empty: "cursor_pos '''' = 0"
  by (simp add: cursor_pos_def)

lemma cursor_pos_after_arg: "cursor_pos (after_arg (Some (cursor_of n))) = n"
  by (simp add: cursor_pos_def after_arg_def cursor_of_def)

lemma add_repos_append:
  "add_repos (xs @ ys) repos = add_repos ys (add_repos xs repos)"
  by (induction xs arbitrary: repos) (simp_all split: option.splits)

text \<open>
  From any position the loop lists what is left of the organization: induction on the
  number of repositories not yet served.
\<close>

lemma repos_loop_api:
  "cursor_pos args = pos \<Longrightarrow>
   repos_loop (github_repos_api listing) args repos
     = Some (Inr (add_repos (drop pos listing) repos))"
proof (induction "length listing - pos" arbitrary: pos args repos rule: less_induct)
  case less
  show ?case
  proof (cases "pos + 100 < length listing")
    case False
    then show ?thesis
      using less.prems
      by (subst repos_loop.simps)
         (simp add: github_repos_api_def page_at_def)
  next
    case True
    let ?args' = "after_arg (Some (cursor_of (pos + 100)))"
    let ?repos' = "add_repos (take 100 (drop pos listing)) repos"
    have "repos_loop (github_repos_api listing) ?args' ?repos'
            = Some (Inr (add_repos (drop (pos + 100) listing) ?repos'))"
      using True by (intro less.hyps) (simp_all add: cursor_pos_after_arg)
    moreover have "add_repos (drop (pos + 100) listing) ?repos' = add_repos (drop pos listing) repos"
    proof -
      have "drop pos listing = take 100 (drop pos listing) @ drop (pos + 100) listing"
        by (metis append_take_drop_id drop_drop add.commute)
      then show ?thesis by (metis add_repos_append)
    qed
    ultimately show ?thesis
      using less.prems True
      by (subst repos_loop.simps)
         (simp add: github_repos_api_def page_at_def)
  qed
qed

lemma update_fresh: "k \<notin> fst ` set al \<Longrightarrow> AList.update k v al = al @ [(k, v)]"
  by (induction al) auto

lemma add_repos_distinct:
  "distinct (map repo_name xs) \<Longrightarrow> repo_name ` set xs \<inter> fst ` set repos = {} \<Longrightarrow>
   add_repos xs repos =
     repos @ map (\<lambda>r. (repo_name r, the (defaultBranchRef r)))
               (filter (\<lambda>r. \<not> isArchived r \<and> defaultBranchRef r \<noteq> None) xs)"
proof (induction xs arbitrary: repos)
  case Nil
  then show ?case by simp
next
  case (Cons r xs)
  show ?case
  proof (cases "\<not> isArchived r \<and> defaultBranchRef r \<noteq> None")
    case False
    then show ?thesis using Cons by (auto split: option.splits)
  next
    case True
    then obtain b where b: "defaultBranchRef r = Some b" by auto
    have fresh: "repo_name r \<notin> fst ` set repos" using Cons.prems by auto
    have "repo_name ` set xs \<inter> fst ` set (repos @ [(repo_name r, b)]) = {}"
      using Cons.prems by auto
    with Cons have "add_repos xs (repos @ [(repo_name r, b)]) =
      (repos @ [(repo_name r, b)]) @ map (\<lambda>r. (repo_name r, the (defaultBranchRef r)))
               (filter (\<lambda>r. \<not> isArchived r \<and> defaultBranchRef r \<noteq> None) xs)"
      by simp
    then show ?thesis using True b fresh by (simp add: update_fresh)
  qed
qed

text \<open>
  Claim C7. For an organization whose repositories have distinct names, the Repository
  Lister returns the mapping that holds exactly the repositories that are not archived
  and have a default branch, each with the name of its default branch, in the order of
  the listing.
\<close>

theorem lister_filters:
  "distinct (map repo_name listing) \<Longrightarrow>
   get_org_repos_from_name (github_repos_api listing) =
     Some (Inr (map (\<lambda>r. (repo_name r, the (defaultBranchRef r)))
                 (filter (\<lambda>r. \<not> isArchived r \<and> defaultBranchRef r \<noteq> None) listing)))"
  unfolding get_org_repos_from_name_def
  by (simp add: repos_loop_api [OF cursor_pos_empty] add_repos_distinct)

text \<open>The listing \<open>A\<close> archived, \<open>B\<close> without default branch, \<open>C\<close> normal gives \<open>C\<close> alone.\<close>

theorem lister_filters_witness:
  "get_org_repos_from_name (github_repos_api
     [\<lparr>defaultBranchRef = Some ''main'', repo_name = ''A'', isArchived = True\<rparr>,
      \<lparr>defaultBranchRef = None, repo_name = ''B'', isArchived = False\<rparr>,
      \<lparr>defaultBranchRef = Some ''main'', repo_name = ''C'', isArchived = False\<rparr>])
   = Some (Inr [(''C'', ''main'')])"
  using lister_filters [of
     "[\<lparr>defaultBranchRef = Some ''main'', repo_name = ''A'', isArchived = True\<rparr>,
      \<lparr>defaultBranchRef = None, repo_name = ''B'', isArchived = False\<rparr>,
      \<lparr>defaultBranchRef = Some ''main'', repo_name = ''C'', isArchived = False\<rparr>]"]
  by simp

section \<open>Properties of the Reporter\<close>

lemma dict_of_items_acc:
  "distinct (map fst (d @ items)) \<Longrightarrow>
   foldl (\<lambda>d (k, v). AList.update k v d) d items = d @ items"
proof (induction items arbitrary: d)
  case Nil
  then show ?case by simp
next
  case (Cons p items)
  obtain k v where p: "p = (k, v)" by (cases p)
  have "k \<notin> fst ` set d" using Cons.prems p by auto
  then have "AList.update k v d = d @ [(k, v)]" by (rule update_fresh)
  moreover have "distinct (map fst ((d @ [(k, v)]) @ items))" using Cons.prems p by simp
  ultimately show ?case using Cons.IH [of "d @ [(k, v)]"] p by simp
qed

lemma dict_of_items_distinct: "distinct (map fst items) \<Longrightarrow> dict_of_items items = items"
  unfolding dict_of_items_def using dict_of_items_acc [of "[]" items] by simp

lemma sorted_authors_sort:
  assumes "distinct (map fst authors)"
  shows "sorted_authors authors = sort_key (\<lambda>x. - activity x) authors"
proof -
  have "mset (map fst (sort_key (\<lambda>x. - activity x) authors)) = mset (map fst authors)"
    by simp
  then have "distinct (map fst (sort_key (\<lambda>x. - activity x) authors))"
    using assms by (metis mset_eq_imp_distinct_iff)
  then show ?thesis
    by (simp add: sorted_authors_def sorted_reverse_def dict_of_items_distinct)
qed

lemma sorted_authors_descending:
  "distinct (map fst authors) \<Longrightarrow>
   sorted_wrt (\<lambda>x y. activity y \<le> activity x) (sorted_authors authors)"
proof -
  assume "distinct (map fst authors)"
  moreover have "sorted (map (\<lambda>x. - activity x) (sort_key (\<lambda>x. - activity x) authors))"
    by (rule sorted_sort_key)
  ultimately show ?thesis by (simp add: sorted_authors_sort sorted_map)
qed

lemma sorted_authors_stable:
  "distinct (map fst authors) \<Longrightarrow>
   filter (\<lambda>x. activity x = k) (sorted_authors authors) = filter (\<lambda>x. activity x = k) authors"
proof -
  assume "distinct (map fst authors)"
  moreover have "filter (\<lambda>x. - activity x = - k) (sort_key (\<lambda>x. - activity x) authors)
                   = filter (\<lambda>x. - activity x = - k) authors"
    by (rule sort_key_stable)
  ultimately show ?thesis by (simp add: sorted_authors_sort)
qed

text \<open>
  Claim C8. For a mapping \<open>authors\<close> (a dict: its keys are distinct), both renderings
  print their rows for the same entries in the same order; the rows are in descending
  order of \<open>commits_in_last_year + reviews_in_last_year\<close>; and for every value \<open>k\<close> of
  that sum, the rows with sum \<open>k\<close> are the entries with sum \<open>k\<close> of the input mapping
  (those that the display mode shows), in the order of the input mapping.
\<close>

theorem reporter_order:
  "distinct (map fst authors) \<Longrightarrow>
   print_authors_rows authors print_totals = print_csv_rows authors print_totals \<and>
   sorted_wrt (\<lambda>x y. activity y \<le> activity x) (print_csv_rows authors print_totals) \<and>
   filter (\<lambda>x. activity x = k) (print_csv_rows authors print_totals)
     = filter (\<lambda>x. activity x = k)
         (if print_totals then authors
          else filter (\<lambda>(author, counts).
                         \<not> (commits_in_last_year counts = 0 \<and> reviews_in_last_year counts = 0))
                 authors)"
proof -
  assume d: "distinct (map fst authors)"
  let ?shown = "\<lambda>(author :: string, counts).
                  \<not> (commits_in_last_year counts = 0 \<and> reviews_in_last_year counts = 0)"
  have 1: "print_authors_rows authors print_totals = print_csv_rows authors print_totals"
    by (simp add: print_authors_rows_def print_csv_rows_def)
  have 2: "sorted_wrt (\<lambda>x y. activity y \<le> activity x) (print_csv_rows authors print_totals)"
    using sorted_authors_descending [OF d]
    by (simp add: print_csv_rows_def sorted_wrt_filter)
  have "filter (\<lambda>x. activity x = k) (filter ?shown (sorted_authors authors))
          = filter ?shown (filter (\<lambda>x. activity x = k) (sorted_authors authors))"
    by (simp add: conj_commute)
  also have "\<dots> = filter ?shown (filter (\<lambda>x. activity x = k) authors)"
    by (simp only: sorted_authors_stable [OF d])
  also have "\<dots> = filter (\<lambda>x. activity x = k) (filter ?shown authors)"
    by (simp add: conj_commute)
  finally have 3: "filter (\<lambda>x. activity x = k) (filter ?shown (sorted_authors authors))
          = filter (\<lambda>x. activity x = k) (filter ?shown authors)" .
  show ?thesis
    using 1 2 3 sorted_authors_stable [OF d, of k] by (simp add: print_csv_rows_def)
qed

theorem reporter_order_witness:
  "filter (\<lambda>x. activity x = 1)
     (print_csv_rows
        [(''ann'', \<lparr>total_commits = 2, commits_in_last_year = 1, total_reviews = 0,
                   reviews_in_last_year = 0\<rparr>),
         (''bob'', \<lparr>total_commits = 5, commits_in_last_year = 3, total_reviews = 1,
                   reviews_in_last_year = 1\<rparr>),
         (''cat'', \<lparr>total_commits = 0, commits_in_last_year = 0, total_reviews = 4,
                   reviews_in_last_year = 1\<rparr>)] True)
   = [(''ann'', \<lparr>total_commits = 2, commits_in_last_year = 1, total_reviews = 0,
                 reviews_in_last_year = 0\<rparr>),
      (''cat'', \<lparr>total_commits = 0, commits_in_last_year = 0, total_reviews = 4,
                 reviews_in_last_year = 1\<rparr>)]"
  using reporter_order [of
        "[(''ann'', \<lparr>total_commits = 2, commits_in_last_year = 1, total_reviews = 0,
                   reviews_in_last_year = 0\<rparr>),
         (''bob'', \<lparr>total_commits = 5, commits_in_last_year = 3, total_reviews = 1,
                   reviews_in_last_year = 1\<rparr>),
         (''cat'', \<lparr>total_commits = 0, commits_in_last_year = 0, total_reviews = 4,
                   reviews_in_last_year = 1\<rparr>)]" True 1]
  by (simp add: activity_def)

section \<open>Properties of the Review History Walker\<close>

lemma after_arg_nonempty: "after_arg c \<noteq> ''''"
  by (simp add: after_arg_def)

lemma scan_reviews_eq:
  "scan_reviews a rs acc =
     Inr (acc @ map event_of
            (filter (\<lambda>r. review_author r \<noteq> None \<and> review_author r \<noteq> Some a \<and> submittedAt r \<noteq> None) rs))"
proof (induction rs arbitrary: acc)
  case Nil
  then show ?case by simp
next
  case (Cons r rs)
  show ?case
  proof (cases "review_author r \<noteq> None \<and> review_author r \<noteq> Some a \<and> submittedAt r \<noteq> None")
    case True
    then obtain l t where "review_author r = Some l" "submittedAt r = Some t" "l \<noteq> a"
      by auto
    then show ?thesis
      by (simp only: scan_reviews.simps Cons.IH filter.simps event_of_def) auto
  next
    case False
    then have "scan_reviews a (r # rs) acc = scan_reviews a rs acc"
      by (cases "review_author r") auto
    then show ?thesis using False by (simp only: Cons.IH filter.simps if_False)
  qed
qed

lemma counted_eq:
  "counted a = (\<lambda>r. review_author r \<noteq> None
                  \<and> review_author r \<noteq> Some (case a of None \<Rightarrow> '''' | Some l \<Rightarrow> l)
                  \<and> submittedAt r \<noteq> None)"
  by (rule ext) (simp add: counted_def)

lemma pr_author_login_eq:
  "(if a = None then Inr '''' else login a) = Inr (case a of None \<Rightarrow> '''' | Some l \<Rightarrow> l)"
  by (cases a) simp_all

lemma scan_prs_Cons:
  "scan_prs (pr # rest) acc =
     (if hasNextPage (pageInfo (reviews pr))
      then Inr (acc @ review_events (pr_author pr) (nodes (reviews pr)),
                after_arg (endCursor (pageInfo (reviews pr))))
      else scan_prs rest (acc @ review_events (pr_author pr) (nodes (reviews pr))))"
  by (simp only: scan_prs.simps pr_author_login_eq scan_reviews_eq review_events_def counted_eq)
     simp

lemma review_events_append:
  "review_events a (xs @ ys) = review_events a xs @ review_events a ys"
  by (simp add: review_events_def)

lemma take_drop_step: "take 100 (drop pos xs) @ drop (pos + 100) xs = drop pos xs"
  by (metis append_take_drop_id drop_drop add.commute)

lemma inner_loop_single_pr:
  "cursor_pos args = pos \<Longrightarrow>
   \<exists>h. reviews_inner_loop (github_reviews_api [pr]) '''' args acc
          = Some (Inr (h, acc @ review_events (pr_login pr) (drop pos (pr_reviews pr))))
       \<and> \<not> hasNextPage (pageInfo h)"
proof (induction "length (pr_reviews pr) - pos" arbitrary: pos args acc rule: less_induct)
  case less
  let ?page = "review_events (pr_login pr) (take 100 (drop pos (pr_reviews pr)))"
  show ?case
  proof (cases "pos + 100 < length (pr_reviews pr)")
    case False
    then have "take 100 (drop pos (pr_reviews pr)) = drop pos (pr_reviews pr)" by simp
    then show ?thesis
      using less.prems False
      by (subst reviews_inner_loop.simps)
         (simp add: github_reviews_api_def page_at_def pr_page_def scan_prs_Cons
            cursor_pos_empty del: scan_prs.simps(2))
  next
    case True
    let ?args' = "after_arg (Some (cursor_of (pos + 100)))"
    obtain h where h:
      "reviews_inner_loop (github_reviews_api [pr]) '''' ?args' (acc @ ?page)
         = Some (Inr (h, (acc @ ?page) @ review_events (pr_login pr)
                           (drop (pos + 100) (pr_reviews pr))))"
      "\<not> hasNextPage (pageInfo h)"
    proof -
      have "length (pr_reviews pr) - (pos + 100) < length (pr_reviews pr) - pos"
        using True by arith
      then show ?thesis
        using less.hyps [of "pos + 100" ?args' "acc @ ?page"] that
        by (auto simp: cursor_pos_after_arg)
    qed
    have "?page @ review_events (pr_login pr) (drop (pos + 100) (pr_reviews pr))
            = review_events (pr_login pr) (drop pos (pr_reviews pr))"
      by (simp add: review_events_append [symmetric] take_drop_step)
    then have "reviews_inner_loop (github_reviews_api [pr]) '''' args acc
          = Some (Inr (h, acc @ review_events (pr_login pr) (drop pos (pr_reviews pr))))"
      using less.prems True h(1)
      by (subst reviews_inner_loop.simps)
         (simp add: github_reviews_api_def page_at_def pr_page_def scan_prs_Cons
            cursor_pos_empty after_arg_nonempty del: scan_prs.simps(2))
    with h(2) show ?thesis by blast
  qed
qed

lemma get_reviews_single_pr:
  "get_reviews (github_reviews_api [pr])
     = Some (Inr (review_events (pr_login pr) (pr_reviews pr)))"
proof -
  obtain h where
    "reviews_inner_loop (github_reviews_api [pr]) '''' '''' []
       = Some (Inr (h, review_events (pr_login pr) (pr_reviews pr)))"
    "\<not> hasNextPage (pageInfo h)"
    using inner_loop_single_pr [OF cursor_pos_empty, of pr "[]"] by auto
  then show ?thesis
    unfolding get_reviews_def by (subst reviews_outer_loop.simps) simp
qed

text \<open>
  Claim C1. A repository with one pull request that has 250 reviews, served in pages of
  100: the walker returns, in the order of the reviews, one event for each review that
  counts (it has an author who is not the author of the pull request, and it has been
  submitted) and nothing else; that is 250 events less the reviews that do not count.
  The lemma before it shows the same for any number of reviews.
\<close>

theorem double_cursor_completeness:
  "length rs = 250 \<Longrightarrow>
   get_reviews (github_reviews_api [\<lparr>pr_login = a, pr_reviews = rs\<rparr>])
     = Some (Inr (map event_of (filter (counted a) rs))) \<and>
   length (map event_of (filter (counted a) rs))
     = 250 - length (filter (\<lambda>r. \<not> counted a r) rs)"
proof -
  assume len: "length rs = 250"
  have "length (filter (counted a) rs) + length (filter (\<lambda>r. \<not> counted a r) rs) = length rs"
    by (rule sum_length_filter_compl)
  with len show ?thesis
    using get_reviews_single_pr [of "\<lparr>pr_login = a, pr_reviews = rs\<rparr>"]
    by (simp add: review_events_def)
qed

theorem double_cursor_completeness_witness:
  "get_reviews (github_reviews_api
     [\<lparr>pr_login = Some ''alice'',
       pr_reviews =
         \<lparr>review_author = Some ''alice'', submittedAt = Some 5\<rparr>
         # replicate 248 \<lparr>review_author = Some ''bob'', submittedAt = Some 7\<rparr>
         @ [\<lparr>review_author = Some ''carol'', submittedAt = None\<rparr>]\<rparr>])
   = Some (Inr (replicate 248 \<lparr>review_event_author = ''bob'', reviewDate = 7\<rparr>))"
  using double_cursor_completeness [of
      "\<lparr>review_author = Some ''alice'', submittedAt = Some 5\<rparr>
         # replicate 248 \<lparr>review_author = Some ''bob'', submittedAt = Some 7\<rparr>
         @ [\<lparr>review_author = Some ''carol'', submittedAt = None\<rparr>]" "Some ''alice''"]
  by (simp add: counted_def event_of_def)

text \<open>
  Two pull requests on one page, the first with 101 to 200 reviews. The first request
  yields the first 100 reviews of the first pull request and leaves the loop over the
  page; the second request carries the inner cursor, which the API applies to both pull
  requests, and the loop starts again at the first pull request of the new page. The
  second pull request is scanned on the second page only, where its single review lies
  before the cursor.
\<close>

lemma second_pr_reviews_lost:
  assumes "100 < length rs" and "length rs \<le> 200"
  shows "get_reviews (github_reviews_api
           [\<lparr>pr_login = a, pr_reviews = rs\<rparr>, \<lparr>pr_login = b, pr_reviews = [r]\<rparr>])
         = Some (Inr (review_events a rs))"
proof -
  let ?api = "github_reviews_api
           [\<lparr>pr_login = a, pr_reviews = rs\<rparr>, \<lparr>pr_login = b, pr_reviews = [r]\<rparr>]"
  let ?args = "after_arg (Some (cursor_of 100))"
  let ?first = "review_events a (take 100 rs)"
  have rest: "take 100 (drop 100 rs) = drop 100 rs" using assms by simp
  have second: "\<exists>h. reviews_inner_loop ?api '''' ?args ?first
           = Some (Inr (h, ?first @ review_events a (drop 100 rs)))
         \<and> \<not> hasNextPage (pageInfo h)"
    using assms
    by (subst reviews_inner_loop.simps)
       (simp add: github_reviews_api_def page_at_def pr_page_def scan_prs_Cons rest
          cursor_pos_empty cursor_pos_after_arg review_events_def del: scan_prs.simps(2))
  have "reviews_inner_loop ?api '''' '''' [] = reviews_inner_loop ?api '''' ?args ?first"
    using assms
    by (subst reviews_inner_loop.simps)
       (simp add: github_reviews_api_def page_at_def pr_page_def scan_prs_Cons
          cursor_pos_empty after_arg_nonempty del: scan_prs.simps(2))
  with second obtain h where
    "reviews_inner_loop ?api '''' '''' [] = Some (Inr (h, ?first @ review_events a (drop 100 rs)))"
    "\<not> hasNextPage (pageInfo h)"
    by auto
  moreover have "?first @ review_events a (drop 100 rs) = review_events a rs"
    by (simp add: review_events_append [symmetric])
  ultimately show ?thesis
    unfolding get_reviews_def by (subst reviews_outer_loop.simps) simp
qed

text \<open>
  For instance: the first pull request has 101 reviews by \<open>bob\<close>, the second one review
  by \<open>carol\<close>; the walker returns the 101 events of the first and loses the review
  by \<open>carol\<close>.
\<close>

lemma later_pr_reviews_dropped:
  "get_reviews (github_reviews_api
     [\<lparr>pr_login = Some ''alice'',
       pr_reviews = replicate 101 \<lparr>review_author = Some ''bob'', submittedAt = Some 10\<rparr>\<rparr>,
      \<lparr>pr_login = Some ''alice'',
       pr_reviews = [\<lparr>review_author = Some ''carol'', submittedAt = Some 20\<rparr>]\<rparr>])
   = Some (Inr (replicate 101 \<lparr>review_event_author = ''bob'', reviewDate = 10\<rparr>)) \<and>
   \<lparr>review_event_author = ''carol'', reviewDate = 20\<rparr>
     \<notin> set (replicate 101 \<lparr>review_event_author = ''bob'', reviewDate = 10\<rparr>)"
  using second_pr_reviews_lost [of
      "replicate 101 \<lparr>review_author = Some ''bob'', submittedAt = Some 10\<rparr>"
      "Some ''alice''" "Some ''alice''" "\<lparr>review_author = Some ''carol'', submittedAt = Some 20\<rparr>"]
  by (simp add: review_events_def counted_def event_of_def)

lemma keyset_page_first:
  "keyset_page 0 (map (\<lambda>i. (i, r)) [1001..<1102]) =
     \<lparr>pageInfo = \<lparr>hasNextPage = True, endCursor = Some (cursor_of 1100)\<rparr>,
      nodes = replicate 100 r\<rparr>"
proof -
  have "filter (\<lambda>p. 0 < fst p) (map (\<lambda>i. (i, r)) [1001..<1102]) = map (\<lambda>i. (i, r)) [1001..<1102]"
    by (rule filter_True) auto
  moreover have "take 100 (map (\<lambda>i. (i, r)) [1001..<1102]) = map (\<lambda>i. (i, r)) [1001..<1101]"
    by (simp add: take_map del: upt_rec_numeral)
  moreover have "last (map (\<lambda>i. (i, r)) [1001..<1101]) = (1100, r)"
    by (simp add: last_map del: upt_rec_numeral)
  moreover have "map snd (map (\<lambda>i. (i, r)) [1001..<1101]) = replicate 100 r"
    by (simp add: map_replicate_const comp_def del: upt_rec_numeral)
  ultimately show ?thesis by (simp add: keyset_page_def Let_def del: upt_rec_numeral)
qed

lemma keyset_page_second:
  "keyset_page 1100 (map (\<lambda>i. (i, r)) [1001..<1102]) =
     \<lparr>pageInfo = \<lparr>hasNextPage = False, endCursor = Some (cursor_of 1101)\<rparr>, nodes = [r]\<rparr>"
proof -
  have "[1001..<Suc 1101] = [1001..<1101] @ [1101::nat]"
    by (rule upt_Suc_append) simp
  then have "map (\<lambda>i. (i, r)) [1001..<1102] = map (\<lambda>i. (i, r)) [1001..<1101] @ [(1101, r)]"
    by (simp del: upt_rec_numeral upt_Suc)
  moreover have "filter (\<lambda>p. 1100 < fst p) (map (\<lambda>i. (i, r)) [1001..<1101]) = []"
    by (rule filter_False) auto
  ultimately show ?thesis by (simp add: keyset_page_def Let_def del: upt_rec_numeral)
qed

text \<open>
  Claim C2, at a failing input. One page holds three pull requests by \<open>alice\<close>: the
  first has one review, by \<open>bob\<close>, with id 5000; the second has 101 reviews by
  \<open>carol\<close> with the ids 1001 to 1101; the third has one review, by \<open>dave\<close>, with
  id 50. All 103 reviews count. The first response makes the walker emit the review by
  \<open>bob\<close> and the first 100 by \<open>carol\<close> and leave the loop over the page with the
  cursor 1100. The second request is for the same outer page with that cursor, and the
  loop scans the new page from its first pull request: the review by \<open>bob\<close> lies
  after the cursor and is emitted a second time, the last review by \<open>carol\<close> follows,
  and the review by \<open>dave\<close> lies before the cursor and is never emitted.
\<close>

theorem rescan_duplicates_and_drops:
  "get_reviews (github_keyset_reviews_api
     [\<lparr>keyed_login = Some ''alice'',
       keyed_reviews = [(5000, \<lparr>review_author = Some ''bob'', submittedAt = Some 50\<rparr>)]\<rparr>,
      \<lparr>keyed_login = Some ''alice'',
       keyed_reviews = map (\<lambda>i. (i, \<lparr>review_author = Some ''carol'', submittedAt = Some 10\<rparr>))
                         [1001..<1102]\<rparr>,
      \<lparr>keyed_login = Some ''alice'',
       keyed_reviews = [(50, \<lparr>review_author = Some ''dave'', submittedAt = Some 5\<rparr>)]\<rparr>])
   = Some (Inr ([\<lparr>review_event_author = ''bob'', reviewDate = 50\<rparr>]
                @ replicate 100 \<lparr>review_event_author = ''carol'', reviewDate = 10\<rparr>
                @ [\<lparr>review_event_author = ''bob'', reviewDate = 50\<rparr>,
                   \<lparr>review_event_author = ''carol'', reviewDate = 10\<rparr>]))"
proof -
  let ?api = "github_keyset_reviews_api
     [\<lparr>keyed_login = Some ''alice'',
       keyed_reviews = [(5000, \<lparr>review_author = Some ''bob'', submittedAt = Some 50\<rparr>)]\<rparr>,
      \<lparr>keyed_login = Some ''alice'',
       keyed_reviews = map (\<lambda>i. (i, \<lparr>review_author = Some ''carol'', submittedAt = Some 10\<rparr>))
                         [1001..<1102]\<rparr>,
      \<lparr>keyed_login = Some ''alice'',
       keyed_reviews = [(50, \<lparr>review_author = Some ''dave'', submittedAt = Some 5\<rparr>)]\<rparr>]"
  let ?bob = "\<lparr>review_event_author = ''bob'', reviewDate = 50\<rparr>"
  let ?carol = "\<lparr>review_event_author = ''carol'', reviewDate = 10\<rparr>"
  let ?args = "after_arg (Some (cursor_of 1100))"
  let ?first = "[?bob] @ replicate 100 ?carol"
  have one: "keyset_page c [(i, r)] = (if c < i
        then \<lparr>pageInfo = \<lparr>hasNextPage = False, endCursor = Some (cursor_of i)\<rparr>, nodes = [r]\<rparr>
        else \<lparr>pageInfo = \<lparr>hasNextPage = False, endCursor = None\<rparr>, nodes = []\<rparr>)"
    for c i and r :: review_node
    by (simp add: keyset_page_def Let_def)
  have step1: "reviews_inner_loop ?api '''' '''' [] = reviews_inner_loop ?api '''' ?args ?first"
    by (subst reviews_inner_loop.simps)
       (simp add: github_keyset_reviews_api_def page_at_def keyed_pr_page_def scan_prs_Cons
          cursor_pos_empty after_arg_nonempty one keyset_page_first
          review_events_def counted_def event_of_def del: scan_prs.simps(2) upt_rec_numeral)
  have step2: "\<exists>h. reviews_inner_loop ?api '''' ?args ?first
                 = Some (Inr (h, ?first @ [?bob, ?carol])) \<and> \<not> hasNextPage (pageInfo h)"
    by (subst reviews_inner_loop.simps)
       (simp add: github_keyset_reviews_api_def page_at_def keyed_pr_page_def scan_prs_Cons
          cursor_pos_empty cursor_pos_after_arg one keyset_page_second
          review_events_def counted_def event_of_def del: scan_prs.simps(2) upt_rec_numeral)
  from step1 step2 obtain h where
    "reviews_inner_loop ?api '''' '''' [] = Some (Inr (h, ?first @ [?bob, ?carol]))"
    "\<not> hasNextPage (pageInfo h)"
    by auto
  then show ?thesis
    unfolding get_reviews_def by (subst reviews_outer_loop.simps) simp
qed

lemma review_events_source:
  "ev \<in> set (review_events a rs) \<Longrightarrow>
   \<exists>r \<in> set rs. review_author r = Some (review_event_author ev) \<and>
                submittedAt r = Some (reviewDate ev) \<and> a \<noteq> review_author r"
  by (cases a) (auto simp: review_events_def counted_def event_of_def)

lemma scan_prs_sources:
  "scan_prs prs acc = Inr (out, args) \<Longrightarrow>
   \<exists>new. out = acc @ new \<and> (\<forall>ev \<in> set new. page_source prs ev)"
proof (induction prs arbitrary: acc)
  case Nil
  then show ?case by simp
next
  case (Cons pr prs)
  let ?new = "review_events (pr_author pr) (nodes (reviews pr))"
  have here: "\<forall>ev \<in> set ?new. page_source (pr # prs) ev"
    using review_events_source [of _ "pr_author pr" "nodes (reviews pr)"]
    by (fastforce simp: page_source_def)
  show ?case
  proof (cases "hasNextPage (pageInfo (reviews pr))")
    case True
    with Cons.prems have "out = acc @ ?new" by (simp add: scan_prs_Cons del: scan_prs.simps(2))
    with here show ?thesis by blast
  next
    case False
    with Cons.prems have "scan_prs prs (acc @ ?new) = Inr (out, args)"
      by (simp add: scan_prs_Cons del: scan_prs.simps(2))
    then obtain new where new: "out = (acc @ ?new) @ new" "\<forall>ev \<in> set new. page_source prs ev"
      using Cons.IH by blast
    have "\<forall>ev \<in> set new. page_source (pr # prs) ev"
      using new(2) by (auto simp: page_source_def)
    with here new(1) show ?thesis by (intro exI [of _ "?new @ new"]) auto
  qed
qed

lemma subscript_Inr: "subscript k f = Inr v \<longleftrightarrow> f = Present v"
  by (cases f) auto

lemma scan_prs_total: "\<exists>out args. scan_prs prs acc = Inr (out, args)"
  by (induction prs arbitrary: acc) (simp_all add: scan_prs_Cons del: scan_prs.simps(2))

lemma inner_loop_sources:
  assumes run: "reviews_inner_loop fetch pa ra acc = Some y"
    and acc: "\<forall>ev \<in> set acc. review_source fetch ev"
    and y: "y = Inr (h, out)"
  shows "\<forall>ev \<in> set out. review_source fetch ev"
  using acc y
proof (induction fetch pa ra acc y rule: reviews_inner_loop.raw_induct)
  case (1 inner fetch pa ra acc y)
  note body = "1.hyps" and y = "1.prems"(2)
  from body y obtain d prs where ok: "status_code (fetch pa ra) = 200"
      "data (fetch pa ra) = Present d" "reviews_repository d = Present prs"
    by (auto simp: Let_def subscript_Inr split: if_splits sum.splits)
  obtain out' args where scan: "scan_prs (nodes prs) acc = Inr (out', args)"
    using scan_prs_total by blast
  then obtain new where new: "out' = acc @ new" "\<forall>ev \<in> set new. page_source (nodes prs) ev"
    using scan_prs_sources by blast
  have "\<forall>ev \<in> set new. review_source fetch ev"
    using new(2) ok unfolding review_source_def by blast
  with new(1) "1.prems"(1) have out': "\<forall>ev \<in> set out'. review_source fetch ev" by auto
  show ?case
  proof (cases "args = []")
    case True
    with body ok scan y have "out = out'" by simp
    with out' show ?thesis by simp
  next
    case False
    with body ok scan have "inner fetch pa args out' = Some y" by simp
    then show ?thesis using out' y by (rule "1.IH")
  qed
qed (fact run)

lemma inner_loop_no_crash:
  assumes run: "reviews_inner_loop fetch pa ra acc = Some y"
    and ok: "\<And>pa ra. reviews_response_ok (fetch pa ra)"
  shows "\<exists>h out. y = Inr (h, out)"
  using ok
proof (induction fetch pa ra acc y rule: reviews_inner_loop.raw_induct)
  case (1 inner fetch pa ra acc y)
  note body = "1.hyps"
  from "1.prems" [of pa ra] obtain d prs where ok: "status_code (fetch pa ra) = 200"
      "data (fetch pa ra) = Present d" "reviews_repository d = Present prs"
    by (auto simp: reviews_response_ok_def split: field.splits)
  obtain out' args where scan: "scan_prs (nodes prs) acc = Inr (out', args)"
    using scan_prs_total by blast
  show ?case
  proof (cases "args = []")
    case True
    with body ok scan show ?thesis by auto
  next
    case False
    with body ok scan have "inner fetch pa args out' = Some y" by simp
    then show ?thesis using "1.prems" by (rule "1.IH")
  qed
qed (fact run)

lemma outer_loop_sources:
  assumes run: "reviews_outer_loop fetch pa acc = Some y"
    and acc: "\<forall>ev \<in> set acc. review_source fetch ev"
    and y: "y = Inr out"
  shows "\<forall>ev \<in> set out. review_source fetch ev"
  using acc y
proof (induction fetch pa acc y rule: reviews_outer_loop.raw_induct)
  case (1 outer fetch pa acc y)
  note body = "1.hyps" and y = "1.prems"(2)
  from body y obtain h out' where
    inner: "reviews_inner_loop fetch pa [] acc = Some (Inr (h, out'))"
    by (auto split: option.splits sum.splits)
  have out': "\<forall>ev \<in> set out'. review_source fetch ev"
    using inner "1.prems"(1) by (rule inner_loop_sources) simp
  show ?case
  proof (cases "hasNextPage (pageInfo h)")
    case False
    with body inner y have "out = out'" by simp
    with out' show ?thesis by simp
  next
    case True
    with body inner
    have "outer fetch (after_arg (endCursor (pageInfo h))) out' = Some y" by simp
    then show ?thesis using out' y by (rule "1.IH")
  qed
qed (fact run)

lemma outer_loop_no_crash:
  assumes run: "reviews_outer_loop fetch pa acc = Some y"
    and ok: "\<And>pa ra. reviews_response_ok (fetch pa ra)"
  shows "\<exists>out. y = Inr out"
  using ok
proof (induction fetch pa acc y rule: reviews_outer_loop.raw_induct)
  case (1 outer fetch pa acc y)
  note body = "1.hyps"
  from body obtain z where z: "reviews_inner_loop fetch pa [] acc = Some z"
    by (auto split: option.splits)
  then obtain h out' where "z = Inr (h, out')"
    using inner_loop_no_crash [OF z "1.prems"] by blast
  with z have inner: "reviews_inner_loop fetch pa [] acc = Some (Inr (h, out'))" by simp
  show ?case
  proof (cases "hasNextPage (pageInfo h)")
    case False
    with body inner show ?thesis by auto
  next
    case True
    with body inner
    have "outer fetch (after_arg (endCursor (pageInfo h))) out' = Some y" by simp
    then show ?thesis using "1.prems" by (rule "1.IH")
  qed
qed (fact run)

text \<open>
  Claim C4. Scanning the reviews of one pull request adds no event whose author is the
  author of that pull request, so a self-review adds none. For the walker as a whole:
  every event it returns carries the author and the date of a review, on a page of one
  of the responses, whose author is not the author of its pull request.
\<close>

theorem self_review_exclusion:
  "(\<exists>new. scan_reviews pr_author_login rs acc = Inr (acc @ new) \<and>
          (\<forall>ev \<in> set new. review_event_author ev \<noteq> pr_author_login)) \<and>
   (get_reviews fetch = Some (Inr evs) \<and> ev \<in> set evs \<longrightarrow>
      (\<exists>pr_history_args review_history_args d pullRequests.
         status_code (fetch pr_history_args review_history_args) = 200 \<and>
         data (fetch pr_history_args review_history_args) = Present d \<and>
         reviews_repository d = Present pullRequests \<and>
         (\<exists>pr \<in> set (nodes pullRequests). \<exists>r \<in> set (nodes (reviews pr)).
            review_author r = Some (review_event_author ev) \<and>
            submittedAt r = Some (reviewDate ev) \<and>
            pr_author pr \<noteq> review_author r)))"
proof (intro conjI impI)
  show "\<exists>new. scan_reviews pr_author_login rs acc = Inr (acc @ new) \<and>
          (\<forall>ev \<in> set new. review_event_author ev \<noteq> pr_author_login)"
    unfolding scan_reviews_eq by (auto simp: event_of_def)
next
  assume a: "get_reviews fetch = Some (Inr evs) \<and> ev \<in> set evs"
  then have "reviews_outer_loop fetch '''' [] = Some (Inr evs)"
    by (simp add: get_reviews_def)
  then have "\<forall>ev \<in> set evs. review_source fetch ev"
    by (rule outer_loop_sources) simp_all
  with a have "review_source fetch ev" by blast
  then show "\<exists>pr_history_args review_history_args d pullRequests.
         status_code (fetch pr_history_args review_history_args) = 200 \<and>
         data (fetch pr_history_args review_history_args) = Present d \<and>
         reviews_repository d = Present pullRequests \<and>
         (\<exists>pr \<in> set (nodes pullRequests). \<exists>r \<in> set (nodes (reviews pr)).
            review_author r = Some (review_event_author ev) \<and>
            submittedAt r = Some (reviewDate ev) \<and>
            pr_author pr \<noteq> review_author r)"
    unfolding review_source_def page_source_def .
qed

theorem self_review_exclusion_witness:
  "get_reviews (github_reviews_api
     [\<lparr>pr_login = Some ''alice'',
       pr_reviews = [\<lparr>review_author = Some ''alice'', submittedAt = Some 5\<rparr>,
                     \<lparr>review_author = Some ''bob'', submittedAt = Some 7\<rparr>]\<rparr>])
     = Some (Inr [\<lparr>review_event_author = ''bob'', reviewDate = 7\<rparr>]) \<and>
   (\<exists>pr_history_args review_history_args d pullRequests.
      status_code (github_reviews_api
             [\<lparr>pr_login = Some ''alice'',
               pr_reviews = [\<lparr>review_author = Some ''alice'', submittedAt = Some 5\<rparr>,
                             \<lparr>review_author = Some ''bob'', submittedAt = Some 7\<rparr>]\<rparr>]
             pr_history_args review_history_args) = 200 \<and>
      data (github_reviews_api
             [\<lparr>pr_login = Some ''alice'',
               pr_reviews = [\<lparr>review_author = Some ''alice'', submittedAt = Some 5\<rparr>,
                             \<lparr>review_author = Some ''bob'', submittedAt = Some 7\<rparr>]\<rparr>]
             pr_history_args review_history_args) = Present d \<and>
      reviews_repository d = Present pullRequests \<and>
      (\<exists>pr \<in> set (nodes pullRequests). \<exists>r \<in> set (nodes (reviews pr)).
         review_author r
           = Some (review_event_author \<lparr>review_event_author = ''bob'', reviewDate = 7\<rparr>) \<and>
         submittedAt r = Some (reviewDate \<lparr>review_event_author = ''bob'', reviewDate = 7\<rparr>) \<and>
         pr_author pr \<noteq> review_author r))"
proof -
  let ?api = "github_reviews_api
     [\<lparr>pr_login = Some ''alice'',
       pr_reviews = [\<lparr>review_author = Some ''alice'', submittedAt = Some 5\<rparr>,
                     \<lparr>review_author = Some ''bob'', submittedAt = Some 7\<rparr>]\<rparr>]"
  let ?ev = "\<lparr>review_event_author = ''bob'', reviewDate = 7\<rparr>"
  have run: "get_reviews ?api = Some (Inr [?ev])"
    by (simp add: get_reviews_single_pr review_events_def counted_def event_of_def)
  then have prem: "get_reviews ?api = Some (Inr [?ev]) \<and> ?ev \<in> set [?ev]" by simp
  note source = self_review_exclusion [of "[]" "[]" "[]" ?api "[?ev]" ?ev,
      THEN conjunct2, THEN mp, OF prem]
  show ?thesis by (rule conjI [OF run source])
qed

text \<open>
  Claim C3. No page makes the scan raise, whatever is \<^verbatim>\<open>null\<close> on it, and each event it
  adds carries the author and the date of a review that has both; if every response is
  usable, the walker does not raise. A review without author adds nothing, and neither
  does a review that has not been submitted. Under a pull request without author, a
  submitted review adds its event unless its author's login is the empty string.
\<close>

theorem null_safety:
  "(\<exists>new args. scan_prs prs acc = Inr (acc @ new, args) \<and>
       (\<forall>ev \<in> set new. \<exists>pr \<in> set prs. \<exists>r \<in> set (nodes (reviews pr)).
          review_author r = Some (review_event_author ev) \<and>
          submittedAt r = Some (reviewDate ev))) \<and>
   ((\<forall>pa ra. reviews_response_ok (fetch pa ra)) \<longrightarrow> get_reviews fetch \<noteq> Some (Inl e)) \<and>
   scan_reviews a (\<lparr>review_author = None, submittedAt = t\<rparr> # rest) acc
     = scan_reviews a rest acc \<and>
   scan_reviews a (\<lparr>review_author = l, submittedAt = None\<rparr> # rest) acc
     = scan_reviews a rest acc \<and>
   scan_prs (\<lparr>pr_author = None,
              reviews = \<lparr>pageInfo = \<lparr>hasNextPage = False, endCursor = c\<rparr>,
                         nodes = [\<lparr>review_author = Some l', submittedAt = Some t'\<rparr>]\<rparr>\<rparr>
             # rest') acc
     = scan_prs rest'
         (if l' = '''' then acc else acc @ [\<lparr>review_event_author = l', reviewDate = t'\<rparr>])"
proof (intro conjI impI)
  obtain out args where scan: "scan_prs prs acc = Inr (out, args)"
    using scan_prs_total by blast
  then obtain new where "out = acc @ new" "\<forall>ev \<in> set new. page_source prs ev"
    using scan_prs_sources by blast
  with scan show "\<exists>new args. scan_prs prs acc = Inr (acc @ new, args) \<and>
       (\<forall>ev \<in> set new. \<exists>pr \<in> set prs. \<exists>r \<in> set (nodes (reviews pr)).
          review_author r = Some (review_event_author ev) \<and>
          submittedAt r = Some (reviewDate ev))"
    unfolding page_source_def by blast
next
  assume ok: "\<forall>pa ra. reviews_response_ok (fetch pa ra)"
  show "get_reviews fetch \<noteq> Some (Inl e)"
  proof
    assume "get_reviews fetch = Some (Inl e)"
    then have "reviews_outer_loop fetch '''' [] = Some (Inl e)"
      by (simp add: get_reviews_def)
    then have "\<exists>out :: review_event list. Inl e = Inr out"
      by (rule outer_loop_no_crash) (simp add: ok)
    then show False by simp
  qed
next
  show "scan_reviews a (\<lparr>review_author = None, submittedAt = t\<rparr> # rest) acc
          = scan_reviews a rest acc"
    by simp
next
  show "scan_reviews a (\<lparr>review_author = l, submittedAt = None\<rparr> # rest) acc
          = scan_reviews a rest acc"
    by (cases l) simp_all
next
  show "scan_prs (\<lparr>pr_author = None,
              reviews = \<lparr>pageInfo = \<lparr>hasNextPage = False, endCursor = c\<rparr>,
                         nodes = [\<lparr>review_author = Some l', submittedAt = Some t'\<rparr>]\<rparr>\<rparr>
             # rest') acc
     = scan_prs rest'
         (if l' = '''' then acc else acc @ [\<lparr>review_event_author = l', reviewDate = t'\<rparr>])"
    by auto
qed

theorem null_safety_witness:
  "(\<forall>pa ra. reviews_response_ok (github_reviews_api
       [\<lparr>pr_login = None,
         pr_reviews = [\<lparr>review_author = None, submittedAt = Some 3\<rparr>,
                       \<lparr>review_author = Some ''bob'', submittedAt = None\<rparr>,
                       \<lparr>review_author = Some '''', submittedAt = Some 4\<rparr>,
                       \<lparr>review_author = Some ''bob'', submittedAt = Some 7\<rparr>]\<rparr>] pa ra)) \<and>
   get_reviews (github_reviews_api
       [\<lparr>pr_login = None,
         pr_reviews = [\<lparr>review_author = None, submittedAt = Some 3\<rparr>,
                       \<lparr>review_author = Some ''bob'', submittedAt = None\<rparr>,
                       \<lparr>review_author = Some '''', submittedAt = Some 4\<rparr>,
                       \<lparr>review_author = Some ''bob'', submittedAt = Some 7\<rparr>]\<rparr>])
     \<noteq> Some (Inl TypeError)"
proof -
  let ?api = "github_reviews_api
       [\<lparr>pr_login = None,
         pr_reviews = [\<lparr>review_author = None, submittedAt = Some 3\<rparr>,
                       \<lparr>review_author = Some ''bob'', submittedAt = None\<rparr>,
                       \<lparr>review_author = Some '''', submittedAt = Some 4\<rparr>,
                       \<lparr>review_author = Some ''bob'', submittedAt = Some 7\<rparr>]\<rparr>]"
  have ok: "\<forall>pa ra. reviews_response_ok (?api pa ra)"
    by (simp add: reviews_response_ok_def github_reviews_api_def)
  with null_safety [of "[]" "[]" ?api TypeError "''''" None "[]" None None "''''" 0 "[]"]
  show ?thesis by blast
qed

section \<open>Responses that end the run\<close>

lemma repos_loop_bad:
  "\<not> repos_response_ok (fetch args) \<Longrightarrow> \<exists>e. repos_loop fetch args repos = Some (Inl e)"
  by (subst repos_loop.simps)
     (auto simp: repos_response_ok_def Let_def split: field.splits)

lemma commits_loop_bad:
  "\<not> commits_response_ok (fetch args) \<Longrightarrow> \<exists>e. commits_loop fetch args commits = Some (Inl e)"
  by (subst commits_loop.simps)
     (auto simp: commits_response_ok_def Let_def split: field.splits)

lemma reviews_inner_loop_bad:
  "\<not> reviews_response_ok (fetch pa ra) \<Longrightarrow>
   \<exists>e. reviews_inner_loop fetch pa ra reviewers = Some (Inl e)"
  by (subst reviews_inner_loop.simps)
     (auto simp: reviews_response_ok_def Let_def split: field.splits)

text \<open>
  Which exception it is. The commit walker tests for each case and raises its own
  \<^verbatim>\<open>Exception\<close>, except that \<^verbatim>\<open>data\<close> being \<^verbatim>\<open>null\<close> makes its test
  \<^verbatim>\<open>'repository' in result['data']\<close> raise \<^verbatim>\<open>TypeError\<close>. The lister and the review
  walker test the status only; a missing key raises \<^verbatim>\<open>KeyError\<close> and a \<^verbatim>\<open>null\<close>
  object \<^verbatim>\<open>TypeError\<close> where they subscript the response.
\<close>

lemma commits_loop_errors:
  "status_code (fetch args) \<noteq> 200 \<Longrightarrow>
     commits_loop fetch args commits = Some (Inl (QueryFailed (status_code (fetch args))))"
  "status_code (fetch args) = 200 \<Longrightarrow> data (fetch args) = Missing \<Longrightarrow>
     commits_loop fetch args commits = Some (Inl UnexpectedData)"
  "status_code (fetch args) = 200 \<Longrightarrow> data (fetch args) = Null \<Longrightarrow>
     commits_loop fetch args commits = Some (Inl TypeError)"
  "status_code (fetch args) = 200 \<Longrightarrow> data (fetch args) = Present d \<Longrightarrow>
     commits_repository d = Missing \<or> commits_repository d = Null \<Longrightarrow>
     commits_loop fetch args commits = Some (Inl RepoDoesNotExist)"
  "status_code (fetch args) = 200 \<Longrightarrow> data (fetch args) = Present d \<Longrightarrow>
     commits_repository d = Present repository \<Longrightarrow>
     ref repository = Missing \<or> ref repository = Null \<Longrightarrow>
     commits_loop fetch args commits = Some (Inl RepoDoesNotExist)"
  by (subst commits_loop.simps, auto)+

lemma reviews_inner_loop_errors:
  "status_code (fetch pa ra) \<noteq> 200 \<Longrightarrow>
     reviews_inner_loop fetch pa ra reviewers
       = Some (Inl (QueryFailed (status_code (fetch pa ra))))"
  "status_code (fetch pa ra) = 200 \<Longrightarrow> data (fetch pa ra) = Missing \<Longrightarrow>
     reviews_inner_loop fetch pa ra reviewers = Some (Inl (KeyError ''data''))"
  "status_code (fetch pa ra) = 200 \<Longrightarrow> data (fetch pa ra) = Null \<Longrightarrow>
     reviews_inner_loop fetch pa ra reviewers = Some (Inl TypeError)"
  "status_code (fetch pa ra) = 200 \<Longrightarrow> data (fetch pa ra) = Present d \<Longrightarrow>
     reviews_repository d = Missing \<Longrightarrow>
     reviews_inner_loop fetch pa ra reviewers = Some (Inl (KeyError ''repository''))"
  "status_code (fetch pa ra) = 200 \<Longrightarrow> data (fetch pa ra) = Present d \<Longrightarrow>
     reviews_repository d = Null \<Longrightarrow>
     reviews_inner_loop fetch pa ra reviewers = Some (Inl TypeError)"
  by (subst reviews_inner_loop.simps, simp)+

lemma repos_loop_errors:
  "status_code (fetch args) \<noteq> 200 \<Longrightarrow>
     repos_loop fetch args repos = Some (Inl (QueryFailed (status_code (fetch args))))"
  "status_code (fetch args) = 200 \<Longrightarrow> data (fetch args) = Missing \<Longrightarrow>
     repos_loop fetch args repos = Some (Inl (KeyError ''data''))"
  "status_code (fetch args) = 200 \<Longrightarrow> data (fetch args) = Null \<Longrightarrow>
     repos_loop fetch args repos = Some (Inl TypeError)"
  "status_code (fetch args) = 200 \<Longrightarrow> data (fetch args) = Present d \<Longrightarrow>
     organization d = Missing \<Longrightarrow>
     repos_loop fetch args repos = Some (Inl (KeyError ''organization''))"
  "status_code (fetch args) = 200 \<Longrightarrow> data (fetch args) = Present d \<Longrightarrow>
     organization d = Null \<Longrightarrow>
     repos_loop fetch args repos = Some (Inl TypeError)"
  by (subst repos_loop.simps, simp)+

lemma repos_reached_loop:
  "repos_reached fetch args repos \<Longrightarrow>
   repos_loop fetch args repos = get_org_repos_from_name fetch"
proof (induction rule: repos_reached.induct)
  case repos_start
  show ?case by (simp add: get_org_repos_from_name_def)
next
  case (repos_next history_args repos d repositories)
  have "repos_loop fetch history_args repos =
        repos_loop fetch (after_arg (endCursor (pageInfo repositories)))
          (add_repos (nodes repositories) repos)"
    using repos_next.hyps by (subst repos_loop.simps) simp
  with repos_next.IH show ?case by simp
qed

lemma commits_reached_loop:
  "commits_reached fetch args commits \<Longrightarrow>
   commits_loop fetch args commits = get_commits fetch"
proof (induction rule: commits_reached.induct)
  case commits_start
  show ?case by (simp add: get_commits_def)
next
  case (commits_next history_args commits d repository history)
  have "commits_loop fetch history_args commits =
        commits_loop fetch (after_arg (endCursor (history_pageInfo history)))
          (add_commits (edges history) commits)"
    using commits_next.hyps by (subst commits_loop.simps) simp
  with commits_next.IH show ?case by simp
qed

lemma reviews_resume_start: "reviews_resume fetch pa '''' acc = reviews_outer_loop fetch pa acc"
  unfolding reviews_resume_def by (subst (2) reviews_outer_loop.simps) simp

lemma reviews_reached_resume:
  "reviews_reached fetch pa ra acc \<Longrightarrow> reviews_resume fetch pa ra acc = get_reviews fetch"
proof (induction rule: reviews_reached.induct)
  case reviews_start
  show ?case by (simp add: reviews_resume_start get_reviews_def)
next
  case (reviews_more pa ra acc d prs acc' ra')
  have "reviews_inner_loop fetch pa ra acc = reviews_inner_loop fetch pa ra' acc'"
    using reviews_more.hyps by (subst reviews_inner_loop.simps) simp
  then have "reviews_resume fetch pa ra' acc' = reviews_resume fetch pa ra acc"
    by (simp add: reviews_resume_def)
  with reviews_more.IH show ?case by simp
next
  case (reviews_next pa ra acc d prs acc')
  have "reviews_inner_loop fetch pa ra acc = Some (Inr (prs, acc'))"
    using reviews_next.hyps by (subst reviews_inner_loop.simps) simp
  then have "reviews_resume fetch pa ra acc
               = reviews_outer_loop fetch (after_arg (endCursor (pageInfo prs))) acc'"
    using reviews_next.hyps by (simp add: reviews_resume_def)
  with reviews_next.IH show ?case by (simp add: reviews_resume_start)
qed

text \<open>
  What holds of all three walkers: whenever a run reaches a request whose response is not usable
  (its status is not 200, or \<^verbatim>\<open>data\<close>, \<^verbatim>\<open>organization\<close>, \<^verbatim>\<open>repository\<close> or
  \<^verbatim>\<open>ref\<close> is missing or \<^verbatim>\<open>null\<close>), the walker raises: it returns an error and not
  the result it had built up to that request. This holds for the first request and for
  every later one, in each of the three walkers.
\<close>

lemma bad_response_aborts:
  "(repos_reached fetch_o args_o repos \<and> \<not> repos_response_ok (fetch_o args_o)
      \<longrightarrow> (\<exists>e. get_org_repos_from_name fetch_o = Some (Inl e))) \<and>
   (commits_reached fetch_c args_c commits \<and> \<not> commits_response_ok (fetch_c args_c)
      \<longrightarrow> (\<exists>e. get_commits fetch_c = Some (Inl e))) \<and>
   (reviews_reached fetch_r pa ra reviewers \<and> \<not> reviews_response_ok (fetch_r pa ra)
      \<longrightarrow> (\<exists>e. get_reviews fetch_r = Some (Inl e)))"
proof (intro conjI impI)
  assume "repos_reached fetch_o args_o repos \<and> \<not> repos_response_ok (fetch_o args_o)"
  then show "\<exists>e. get_org_repos_from_name fetch_o = Some (Inl e)"
    using repos_loop_bad [of fetch_o args_o repos] repos_reached_loop [of fetch_o args_o repos]
    by auto
next
  assume "commits_reached fetch_c args_c commits \<and> \<not> commits_response_ok (fetch_c args_c)"
  then show "\<exists>e. get_commits fetch_c = Some (Inl e)"
    using commits_loop_bad [of fetch_c args_c commits]
      commits_reached_loop [of fetch_c args_c commits]
    by auto
next
  assume a: "reviews_reached fetch_r pa ra reviewers \<and> \<not> reviews_response_ok (fetch_r pa ra)"
  then obtain e where "reviews_inner_loop fetch_r pa ra reviewers = Some (Inl e)"
    using reviews_inner_loop_bad [of fetch_r pa ra reviewers] by auto
  then have "reviews_resume fetch_r pa ra reviewers = Some (Inl e)"
    by (simp add: reviews_resume_def)
  with a show "\<exists>e. get_reviews fetch_r = Some (Inl e)"
    using reviews_reached_resume [of fetch_r pa ra reviewers] by auto
qed

lemma bad_response_aborts_example:
  "(\<exists>e. get_org_repos_from_name (\<lambda>args. \<lparr>status_code = 502, data = Missing\<rparr>) = Some (Inl e)) \<and>
   (\<exists>e. get_commits
           (\<lambda>args. \<lparr>status_code = 200,
                     data = Present \<lparr>commits_repository = Present \<lparr>ref = Null\<rparr>\<rparr>\<rparr>)
         = Some (Inl e)) \<and>
   (\<exists>e. get_reviews
           (\<lambda>pa ra. if pa = ''''
                     then \<lparr>status_code = 200,
                           data = Present \<lparr>reviews_repository = Present
                             \<lparr>pageInfo = \<lparr>hasNextPage = True, endCursor = Some ''c''\<rparr>,
                              nodes = []\<rparr>\<rparr>\<rparr>
                     else \<lparr>status_code = 200, data = Present \<lparr>reviews_repository = Null\<rparr>\<rparr>)
         = Some (Inl e))"
proof -
  let ?fo = "\<lambda>args :: string. \<lparr>status_code = 502, data = Missing\<rparr> :: repos_response"
  let ?fc = "\<lambda>args :: string. \<lparr>status_code = 200,
                     data = Present \<lparr>commits_repository = Present \<lparr>ref = Null\<rparr>\<rparr>\<rparr>"
  let ?page = "\<lparr>pageInfo = \<lparr>hasNextPage = True, endCursor = Some ''c''\<rparr>,
                nodes = [] :: pr_node list\<rparr>"
  let ?fr = "\<lambda>(pa :: string) (ra :: string). if pa = ''''
                     then \<lparr>status_code = 200,
                           data = Present \<lparr>reviews_repository = Present ?page\<rparr>\<rparr>
                     else \<lparr>status_code = 200, data = Present \<lparr>reviews_repository = Null\<rparr>\<rparr>"
  have o: "repos_reached ?fo '''' [] \<and> \<not> repos_response_ok (?fo '''')"
    by (simp add: repos_start repos_response_ok_def)
  have c: "commits_reached ?fc '''' [] \<and> \<not> commits_response_ok (?fc '''')"
    by (simp add: commits_start commits_response_ok_def)
  have "reviews_reached ?fr (after_arg (endCursor (pageInfo ?page))) '''' []"
    by (rule reviews_next [OF reviews_start, where d = "\<lparr>reviews_repository = Present ?page\<rparr>"])
       simp_all
  then have r: "reviews_reached ?fr (after_arg (Some ''c'')) '''' [] \<and>
                \<not> reviews_response_ok (?fr (after_arg (Some ''c'')) '''')"
    by (simp add: reviews_response_ok_def after_arg_nonempty)
  show ?thesis
    using bad_response_aborts [of ?fo "''''" "[]" ?fc "''''" "[]" ?fr "after_arg (Some ''c'')"
        "''''" "[]"] o c r
    by blast
qed

text \<open>
  Claim C9, at a failing input. The API answers with status 200 and \<^verbatim>\<open>repository\<close>
  \<^verbatim>\<open>null\<close>, as it does for a repository that does not exist. The commit walker tests
  for this (lines 76 to 79) and raises its own exception, "Repo ... does not exist". The
  review walker subscripts the response untested (line 152) and goes down with Python's
  \<^verbatim>\<open>TypeError\<close>; so does the lister for an \<^verbatim>\<open>organization\<close> that is \<^verbatim>\<open>null\<close>
  (line 230). When \<^verbatim>\<open>data\<close> is missing, the commit walker raises its "unexpected
  data" exception, the two others \<^verbatim>\<open>KeyError\<close>; and when \<^verbatim>\<open>data\<close> is \<^verbatim>\<open>null\<close>
  the commit walker's own test raises \<^verbatim>\<open>TypeError\<close>. In each case the run ends, but
  only the commit walker ends it by an error that the program raises for the purpose.
\<close>

theorem unchecked_response_raises_python_error:
  "get_reviews (\<lambda>pa ra. \<lparr>status_code = 200, data = Present \<lparr>reviews_repository = Null\<rparr>\<rparr>)
     = Some (Inl TypeError) \<and>
   get_commits (\<lambda>args. \<lparr>status_code = 200, data = Present \<lparr>commits_repository = Null\<rparr>\<rparr>)
     = Some (Inl RepoDoesNotExist) \<and>
   get_org_repos_from_name (\<lambda>args. \<lparr>status_code = 200, data = Present \<lparr>organization = Null\<rparr>\<rparr>)
     = Some (Inl TypeError) \<and>
   get_reviews (\<lambda>pa ra. \<lparr>status_code = 200, data = Missing\<rparr>)
     = Some (Inl (KeyError ''data'')) \<and>
   get_commits (\<lambda>args. \<lparr>status_code = 200, data = Missing\<rparr>)
     = Some (Inl UnexpectedData) \<and>
   get_org_repos_from_name (\<lambda>args. \<lparr>status_code = 200, data = Missing\<rparr>)
     = Some (Inl (KeyError ''data'')) \<and>
   get_commits (\<lambda>args. \<lparr>status_code = 200, data = Null\<rparr>)
     = Some (Inl TypeError)"
proof -
  have inner: "reviews_inner_loop fetch '''' '''' [] = Some (Inl e)
                 \<Longrightarrow> get_reviews fetch = Some (Inl e)" for fetch e
    unfolding get_reviews_def by (subst reviews_outer_loop.simps) simp
  have 1: "get_reviews (\<lambda>pa ra. \<lparr>status_code = 200,
                                  data = Present \<lparr>reviews_repository = Null\<rparr>\<rparr>)
             = Some (Inl TypeError)"
    by (rule inner, subst reviews_inner_loop.simps) simp
  have 2: "get_commits (\<lambda>args. \<lparr>status_code = 200,
                                  data = Present \<lparr>commits_repository = Null\<rparr>\<rparr>)
             = Some (Inl RepoDoesNotExist)"
    unfolding get_commits_def by (subst commits_loop.simps) simp
  have 3: "get_org_repos_from_name
             (\<lambda>args. \<lparr>status_code = 200, data = Present \<lparr>organization = Null\<rparr>\<rparr>)
             = Some (Inl TypeError)"
    unfolding get_org_repos_from_name_def by (subst repos_loop.simps) simp
  have 4: "get_reviews (\<lambda>pa ra. \<lparr>status_code = 200, data = Missing\<rparr>)
             = Some (Inl (KeyError ''data''))"
    by (rule inner, subst reviews_inner_loop.simps) simp
  have 5: "get_commits (\<lambda>args. \<lparr>status_code = 200, data = Missing\<rparr>)
             = Some (Inl UnexpectedData)"
    unfolding get_commits_def by (subst commits_loop.simps) simp
  have 6: "get_org_repos_from_name (\<lambda>args. \<lparr>status_code = 200, data = Missing\<rparr>)
             = Some (Inl (KeyError ''data''))"
    unfolding get_org_repos_from_name_def by (subst repos_loop.simps) simp
  have 7: "get_commits (\<lambda>args. \<lparr>status_code = 200, data = Null\<rparr>)
             = Some (Inl TypeError)"
    unfolding get_commits_def by (subst commits_loop.simps) simp
  from 1 2 3 4 5 6 7 show ?thesis by (intro conjI)
qed

end
